theory Spec2Isabelle
  imports Complex_Main "HOL-Library.AList" "HOL-Library.Log_Nat"
begin

section \<open>The graph layout of RenderGraphSvg.tsx\<close>

text \<open>
  A shallow embedding of \<^verbatim>\<open>applyJsxTreeLayout\<close> (src/entities/RenderGraphSvg.tsx).
  The types \<^verbatim>\<open>GraphLayout\<close>, \<^verbatim>\<open>GraphNode\<close> and \<^verbatim>\<open>GraphEdge\<close> are declared in the
  graph builder, which the function only imports; the records below hold the fields the
  function reads and writes, and the fields the SVG renderer reads. Field names carry a
  prefix, since a record field is a constant: \<^verbatim>\<open>node.id\<close> is \<open>node_id\<close>,
  \<^verbatim>\<open>edge.from.x\<close> is \<open>end_x (edge_from e)\<close>, \<^verbatim>\<open>layout.width\<close> is \<open>width l\<close>.

  A JavaScript \<^verbatim>\<open>number\<close> is a real number here: the finite doubles are reals, and
  the counters of the function (depths and rows) are natural numbers. The x coordinate of
  a repositioned node is computed from \<^verbatim>\<open>colX.jsx\<close>, which is any double, and every
  operation of that computation is followed by the rounding of the number format; the
  rounding is the parameter \<open>rnd\<close> of the functions below, and \<open>round64\<close> is the one of
  the doubles. The y coordinate \<open>80 + row * 40\<close>, which is exact in doubles for every row
  that an array can give, and the bounding-box sums are written without rounding.
  \<^verbatim>\<open>string | undefined\<close> is \<open>string option\<close>.
\<close>

subsection \<open>Rounding to a double\<close>

text \<open>
  Round to nearest, ties to even, for binary64: 53 significant bits, and a unit in the
  last place of at least \<open>2\<^sup>-\<^sup>1\<^sup>0\<^sup>7\<^sup>4\<close>. \<open>binade x\<close> is the integer \<open>k\<close> with
  \<open>2\<^sup>k \<le> \<bar>x\<bar> < 2\<^sup>k\<^sup>+\<^sup>1\<close>, for \<open>x\<close> other than 0. A result of magnitude
  \<open>2\<^sup>1\<^sup>0\<^sup>2\<^sup>4\<close> or more, which is no finite double, is outside this model.
\<close>

definition binade :: "real \<Rightarrow> int" where
  "binade x =
     (if 1 \<le> \<bar>x\<bar> then bitlen \<lfloor>\<bar>x\<bar>\<rfloor> - 1 else - bitlen (\<lceil>1 / \<bar>x\<bar>\<rceil> - 1))"

definition pow2 :: "int \<Rightarrow> real" where
  "pow2 e = (if 0 \<le> e then 2 ^ nat e else 1 / 2 ^ nat (- e))"

definition round_half_even :: "real \<Rightarrow> int" where
  "round_half_even y =
     (let f = \<lfloor>y\<rfloor>; r = y - of_int f
      in if r < 1 / 2 then f else if 1 / 2 < r then f + 1 else if even f then f else f + 1)"

definition round64 :: "real \<Rightarrow> real" where
  "round64 x =
     (if x = 0 then 0
      else (let u = pow2 (max (binade x - 52) (- 1074))
            in of_int (round_half_even (x / u)) * u))"

subsection \<open>Data model\<close>

datatype GraphNodeKind = Independent | State | Variable | Effect | Jsx | External

datatype GraphEdgeKind = Flow | StateDependency | StateMutation | ExternalEdge

record NodeMeta =
  jsxParentId :: "string option"

record GraphNode =
  node_id :: string
  node_kind :: GraphNodeKind
  node_label :: string
  node_x :: real
  node_y :: real
  node_width :: real
  node_height :: real
  node_meta :: "NodeMeta option"

record EdgeEnd =
  end_nodeId :: "string option"
  end_x :: real
  end_y :: real

record GraphEdge =
  edge_id :: string
  edge_kind :: GraphEdgeKind
  edge_from :: EdgeEnd
  edge_to :: EdgeEnd
  edge_label :: "string option"

record ColX =
  col_independent :: real
  col_state :: real
  col_variable :: real
  col_effect :: real
  col_jsx :: real

record GraphLayout =
  nodes :: "GraphNode list"
  edges :: "GraphEdge list"
  width :: real
  height :: real
  colX :: ColX

subsection \<open>JavaScript maps and loops\<close>

text \<open>
  A \<^verbatim>\<open>Map\<close> keeps its keys in insertion order, and \<^verbatim>\<open>set\<close> on a key that is present
  replaces the value in place: an association list with \<open>AList.update\<close>.
\<close>

type_synonym ('k, 'v) js_map = "('k \<times> 'v) list"

definition map_set :: "'k \<Rightarrow> 'v \<Rightarrow> ('k, 'v) js_map \<Rightarrow> ('k, 'v) js_map" where
  "map_set k v m = AList.update k v m"

definition map_get :: "('k, 'v) js_map \<Rightarrow> 'k \<Rightarrow> 'v option" where
  "map_get m k = map_of m k"

definition map_has :: "('k, 'v) js_map \<Rightarrow> 'k \<Rightarrow> bool" where
  "map_has m k = (map_of m k \<noteq> None)"

definition map_values :: "('k, 'v) js_map \<Rightarrow> 'v list" where
  "map_values m = map snd m"

text \<open>
  \<^verbatim>\<open>parentIdMap\<close> is a \<^verbatim>\<open>Map<string, string | undefined>\<close>: \<^verbatim>\<open>get\<close> gives
  \<^verbatim>\<open>undefined\<close> for a missing key and for a key set to \<^verbatim>\<open>undefined\<close>.
\<close>

definition parent_get :: "(string, string option) js_map \<Rightarrow> string \<Rightarrow> string option" where
  "parent_get m k = (case map_get m k of None \<Rightarrow> None | Some v \<Rightarrow> v)"

text \<open>
  \<^verbatim>\<open>for (const c of cs) body(c)\<close> over a state; the body may fail to return, and then so
  does the loop.
\<close>

fun for_each :: "'a list \<Rightarrow> ('a \<Rightarrow> 's \<Rightarrow> 's option) \<Rightarrow> 's \<Rightarrow> 's option" where
  "for_each [] body s = Some s"
| "for_each (c # cs) body s =
     (case body c s of None \<Rightarrow> None | Some s' \<Rightarrow> for_each cs body s')"

subsection \<open>The two traversals\<close>

text \<open>\<^verbatim>\<open>meta?.jsxParentId\<close>\<close>

definition meta_jsxParentId :: "GraphNode \<Rightarrow> string option" where
  "meta_jsxParentId node = (case node_meta node of None \<Rightarrow> None | Some m \<Rightarrow> jsxParentId m)"

definition jsxNodes_of :: "GraphNode list \<Rightarrow> GraphNode list" where
  "jsxNodes_of ns = filter (\<lambda>n. node_kind n = Jsx) ns"

definition parentIdMap_of :: "GraphNode list \<Rightarrow> (string, string option) js_map" where
  "parentIdMap_of jsxNodes =
     fold (\<lambda>node m. map_set (node_id node) (meta_jsxParentId node) m) jsxNodes []"

definition jsxNodeById_of :: "GraphNode list \<Rightarrow> (string, GraphNode) js_map" where
  "jsxNodeById_of jsxNodes = fold (\<lambda>node m. map_set (node_id node) node m) jsxNodes []"

text \<open>
  \<^verbatim>\<open>!parentId || !jsxNodeById.has(parentId)\<close>, for the node with id \<open>i\<close>: of the
  values of a \<^verbatim>\<open>string | undefined\<close>, \<^verbatim>\<open>undefined\<close> and the empty string are falsy.
\<close>

definition is_root ::
  "(string, string option) js_map \<Rightarrow> (string, GraphNode) js_map \<Rightarrow> string \<Rightarrow> bool" where
  "is_root parentIdMap jsxNodeById i =
     (case parent_get parentIdMap i of
        None \<Rightarrow> True
      | Some parentId \<Rightarrow> parentId = [] \<or> \<not> map_has jsxNodeById parentId)"

definition rootJsxNodes_of :: "GraphNode list \<Rightarrow> GraphNode list" where
  "rootJsxNodes_of jsxNodes =
     filter (\<lambda>node. is_root (parentIdMap_of jsxNodes) (jsxNodeById_of jsxNodes) (node_id node))
       jsxNodes"

text \<open>\<^verbatim>\<open>jsxNodes.filter((child) => parentIdMap.get(child.id) === node.id)\<close>\<close>

definition children_of ::
  "GraphNode list \<Rightarrow> (string, string option) js_map \<Rightarrow> GraphNode \<Rightarrow> GraphNode list" where
  "children_of jsxNodes parentIdMap node =
     filter (\<lambda>child. parent_get parentIdMap (node_id child) = Some (node_id node)) jsxNodes"

text \<open>
  \<^verbatim>\<open>dfs\<close> and \<^verbatim>\<open>assignPosition\<close> recurse into the children with no visited set. The
  first argument bounds the depth of the call stack: a call that needs a deeper stack does
  not return, which is the value \<open>None\<close> (the JavaScript engine ends such a recursion with
  a RangeError). The state of \<^verbatim>\<open>dfs\<close> is the pair of \<^verbatim>\<open>depthById\<close> and
  \<^verbatim>\<open>rowIndexByDepth\<close>; the state of \<^verbatim>\<open>assignPosition\<close> is the pair of
  \<^verbatim>\<open>usedRowsPerDepth\<close> and \<^verbatim>\<open>newNodePositions\<close>.
\<close>

type_synonym dfs_state = "(string, nat) js_map \<times> (nat, nat) js_map"

type_synonym pos_state = "(nat, nat) js_map \<times> (string, real \<times> real) js_map"

primrec dfs ::
  "nat \<Rightarrow> GraphNode list \<Rightarrow> (string, string option) js_map \<Rightarrow> GraphNode \<Rightarrow> nat \<Rightarrow>
   dfs_state \<Rightarrow> dfs_state option" where
  "dfs 0 jsxNodes parentIdMap node depth st = None"
| "dfs (Suc fuel) jsxNodes parentIdMap node depth st =
     (let depthById = map_set (node_id node) depth (fst st);
          currentRow = (case map_get (snd st) depth of None \<Rightarrow> 0 | Some r \<Rightarrow> r);
          rowIndexByDepth = map_set depth (currentRow + 1) (snd st);
          children = children_of jsxNodes parentIdMap node
      in for_each children (\<lambda>child. dfs fuel jsxNodes parentIdMap child (depth + 1))
           (depthById, rowIndexByDepth))"

definition depthGapX :: real where "depthGapX = 160"
definition baseY :: real where "baseY = 80"
definition rowGapY :: real where "rowGapY = 40"

text \<open>
  \<^verbatim>\<open>baseX - (maxDepth * depthGapX) / 2 + depth * depthGapX\<close>, each of its five operations
  rounded.
\<close>

definition position_x :: "(real \<Rightarrow> real) \<Rightarrow> real \<Rightarrow> nat \<Rightarrow> nat \<Rightarrow> real" where
  "position_x rnd baseX maxDepth depth =
     rnd (rnd (baseX - rnd (rnd (real maxDepth * depthGapX) / 2)) + rnd (real depth * depthGapX))"

definition position_y :: "nat \<Rightarrow> real" where
  "position_y used = baseY + real used * rowGapY"

primrec assignPosition ::
  "(real \<Rightarrow> real) \<Rightarrow> nat \<Rightarrow> GraphNode list \<Rightarrow> (string, string option) js_map \<Rightarrow> real \<Rightarrow> nat \<Rightarrow> GraphNode \<Rightarrow>
   nat \<Rightarrow> pos_state \<Rightarrow> pos_state option" where
  "assignPosition rnd 0 jsxNodes parentIdMap baseX maxDepth node depth st = None"
| "assignPosition rnd (Suc fuel) jsxNodes parentIdMap baseX maxDepth node depth st =
     (let used = (case map_get (fst st) depth of None \<Rightarrow> 0 | Some u \<Rightarrow> u);
          usedRowsPerDepth = map_set depth (used + 1) (fst st);
          x = position_x rnd baseX maxDepth depth;
          y = position_y used;
          newNodePositions = map_set (node_id node) (x, y) (snd st);
          children = children_of jsxNodes parentIdMap node
      in for_each children
           (\<lambda>child. assignPosition rnd fuel jsxNodes parentIdMap baseX maxDepth child (depth + 1))
           (usedRowsPerDepth, newNodePositions))"

subsection \<open>The transformer\<close>

definition maxDepth_of :: "(string, nat) js_map \<Rightarrow> nat" where
  "maxDepth_of depthById = fold (\<lambda>d m. if d > m then d else m) (map_values depthById) 0"

definition newNodes_of :: "(string, real \<times> real) js_map \<Rightarrow> GraphNode list \<Rightarrow> GraphNode list" where
  "newNodes_of newNodePositions ns =
     map (\<lambda>node. case map_get newNodePositions (node_id node) of
                   None \<Rightarrow> node
                 | Some pos \<Rightarrow> node\<lparr>node_x := fst pos, node_y := snd pos\<rparr>) ns"

definition nodeByIdAfter_of :: "GraphNode list \<Rightarrow> (string, GraphNode) js_map" where
  "nodeByIdAfter_of newNodes = fold (\<lambda>node m. map_set (node_id node) node m) newNodes []"

text \<open>
  One endpoint: \<^verbatim>\<open>if (nodeId && nodeByIdAfter.has(nodeId))\<close>, then the endpoint with the
  coordinates of \<^verbatim>\<open>nodeByIdAfter.get(nodeId)\<close>; the endpoint itself otherwise.
\<close>

definition newEnd :: "(string, GraphNode) js_map \<Rightarrow> EdgeEnd \<Rightarrow> EdgeEnd" where
  "newEnd nodeByIdAfter e =
     (case end_nodeId e of
        None \<Rightarrow> e
      | Some nodeId \<Rightarrow>
          if nodeId \<noteq> [] \<and> map_has nodeByIdAfter nodeId
          then (case map_get nodeByIdAfter nodeId of
                  None \<Rightarrow> e
                | Some n \<Rightarrow> e\<lparr>end_x := node_x n, end_y := node_y n\<rparr>)
          else e)"

definition newEdges_of :: "(string, GraphNode) js_map \<Rightarrow> GraphEdge list \<Rightarrow> GraphEdge list" where
  "newEdges_of nodeByIdAfter es =
     map (\<lambda>edge. edge\<lparr>edge_from := newEnd nodeByIdAfter (edge_from edge),
                      edge_to := newEnd nodeByIdAfter (edge_to edge)\<rparr>) es"

definition maxY_of :: "real \<Rightarrow> GraphNode list \<Rightarrow> real" where
  "maxY_of h newNodes =
     fold (\<lambda>node maxY. let bottom = node_y node + node_height node / 2 + 40
                        in if bottom > maxY then bottom else maxY) newNodes h"

definition maxX_of :: "real \<Rightarrow> GraphNode list \<Rightarrow> real" where
  "maxX_of w newNodes =
     fold (\<lambda>node maxX. let right = node_x node + node_width node / 2 + 40
                        in if right > maxX then right else maxX) newNodes w"

text \<open>The depth pass, from the roots in their order, starting from empty maps.\<close>

definition depth_pass :: "nat \<Rightarrow> GraphNode list \<Rightarrow> dfs_state option" where
  "depth_pass fuel jsxNodes =
     for_each (rootJsxNodes_of jsxNodes)
       (\<lambda>root. dfs fuel jsxNodes (parentIdMap_of jsxNodes) root 0) ([], [])"

text \<open>The position pass, after \<^verbatim>\<open>usedRowsPerDepth.clear()\<close>.\<close>

definition position_pass ::
  "(real \<Rightarrow> real) \<Rightarrow> nat \<Rightarrow> GraphNode list \<Rightarrow> real \<Rightarrow> nat \<Rightarrow> pos_state option" where
  "position_pass rnd fuel jsxNodes baseX maxDepth =
     for_each (rootJsxNodes_of jsxNodes)
       (\<lambda>root. assignPosition rnd fuel jsxNodes (parentIdMap_of jsxNodes) baseX maxDepth root 0)
       ([], [])"

definition applyJsxTreeLayout ::
  "(real \<Rightarrow> real) \<Rightarrow> nat \<Rightarrow> GraphLayout \<Rightarrow> GraphLayout option" where
  "applyJsxTreeLayout rnd fuel layout =
     (let jsxNodes = jsxNodes_of (nodes layout) in
      if jsxNodes = [] then Some layout
      else
        (case depth_pass fuel jsxNodes of
           None \<Rightarrow> None
         | Some dst \<Rightarrow>
             (let maxDepth = maxDepth_of (fst dst);
                  baseX = col_jsx (colX layout)
              in case position_pass rnd fuel jsxNodes baseX maxDepth of
                   None \<Rightarrow> None
                 | Some pst \<Rightarrow>
                     (let newNodes = newNodes_of (snd pst) (nodes layout);
                          nodeByIdAfter = nodeByIdAfter_of newNodes;
                          newEdges = newEdges_of nodeByIdAfter (edges layout);
                          maxY = maxY_of (height layout) newNodes;
                          maxX = maxX_of (width layout) newNodes
                      in Some \<lparr>nodes = newNodes, edges = newEdges, width = maxX,
                               height = maxY, colX = colX layout\<rparr>))))"

subsection \<open>Example layouts\<close>

text \<open>Concrete layouts on which the theorems below are instantiated and the code is run.\<close>

definition jsx_node :: "string \<Rightarrow> string option \<Rightarrow> real \<Rightarrow> real \<Rightarrow> GraphNode" where
  "jsx_node i p x y =
     \<lparr>node_id = i, node_kind = Jsx, node_label = i, node_x = x, node_y = y,
      node_width = 120, node_height = 28, node_meta = Some \<lparr>jsxParentId = p\<rparr>\<rparr>"

definition state_node :: "string \<Rightarrow> real \<Rightarrow> real \<Rightarrow> GraphNode" where
  "state_node i x y =
     \<lparr>node_id = i, node_kind = State, node_label = i, node_x = x, node_y = y,
      node_width = 120, node_height = 28, node_meta = None\<rparr>"

definition columns :: "real \<Rightarrow> ColX" where
  "columns j =
     \<lparr>col_independent = 100, col_state = 300, col_variable = 500, col_effect = 700, col_jsx = j\<rparr>"

definition edge_between :: "string \<Rightarrow> EdgeEnd \<Rightarrow> EdgeEnd \<Rightarrow> GraphEdge" where
  "edge_between i a b =
     \<lparr>edge_id = i, edge_kind = Flow, edge_from = a, edge_to = b, edge_label = None\<rparr>"

text \<open>The three-node scenario of the specification: a root and its two children.\<close>

definition scenario :: GraphLayout where
  "scenario =
     \<lparr>nodes = [jsx_node ''root'' None 400 80, jsx_node ''child1'' (Some ''root'') 400 120,
               jsx_node ''child2'' (Some ''root'') 400 160],
      edges = [], width = 500, height = 300, colX = columns 400\<rparr>"

definition scenario_result :: GraphLayout where
  "scenario_result =
     \<lparr>nodes = [jsx_node ''root'' None 320 80, jsx_node ''child1'' (Some ''root'') 480 80,
               jsx_node ''child2'' (Some ''root'') 480 120],
      edges = [], width = 580, height = 300, colX = columns 400\<rparr>"

text \<open>A layout with no jsx node, and an edge whose snapshot differs from its node.\<close>

definition plain_layout :: GraphLayout where
  "plain_layout =
     \<lparr>nodes = [state_node ''count'' 300 80],
      edges = [edge_between ''e1'' \<lparr>end_nodeId = Some ''count'', end_x = 310, end_y = 90\<rparr>
                 \<lparr>end_nodeId = None, end_x = 500, end_y = 90\<rparr>],
      width = 800, height = 200, colX = columns 900\<rparr>"

text \<open>A state node and a jsx root, joined by an edge whose snapshots are stale.\<close>

definition mixed_layout :: GraphLayout where
  "mixed_layout =
     \<lparr>nodes = [state_node ''count'' 300 80, jsx_node ''root'' None 880 200],
      edges = [edge_between ''e1'' \<lparr>end_nodeId = Some ''count'', end_x = 310, end_y = 90\<rparr>
                 \<lparr>end_nodeId = Some ''root'', end_x = 870, end_y = 190\<rparr>],
      width = 1000, height = 400, colX = columns 900\<rparr>"

definition mixed_result :: GraphLayout where
  "mixed_result =
     \<lparr>nodes = [state_node ''count'' 300 80, jsx_node ''root'' None 900 80],
      edges = [edge_between ''e1'' \<lparr>end_nodeId = Some ''count'', end_x = 300, end_y = 80\<rparr>
                 \<lparr>end_nodeId = Some ''root'', end_x = 900, end_y = 80\<rparr>],
      width = 1000, height = 400, colX = columns 900\<rparr>"

text \<open>
  A chain of \<open>m\<close> jsx nodes, each the only child of the one before it; the ids are
  \<^verbatim>\<open>n\<close>, \<^verbatim>\<open>nn\<close>, \<^verbatim>\<open>nnn\<close> and so on.
\<close>

definition chain_id :: "nat \<Rightarrow> string" where
  "chain_id k = replicate (Suc k) CHR ''n''"

definition chain_layout :: "nat \<Rightarrow> real \<Rightarrow> GraphLayout" where
  "chain_layout m j =
     \<lparr>nodes = map (\<lambda>k. jsx_node (chain_id k) (if k = 0 then None else Some (chain_id (k - 1)))
                          j (80 + 40 * real k)) [0..<m],
      edges = [], width = 1200, height = 800, colX = columns j\<rparr>"

text \<open>
  Two jsx nodes that name each other as parent, one of them with the empty string as
  its id.
\<close>

definition empty_id_cycle :: GraphLayout where
  "empty_id_cycle =
     \<lparr>nodes = [jsx_node ''a'' (Some []) 900 80, jsx_node [] (Some ''a'') 900 120],
      edges = [], width = 1000, height = 400, colX = columns 900\<rparr>"

text \<open>
  A root with one child, and two further jsx nodes that name each other as parent; an
  edge joins the latter two.
\<close>

definition cyclic_layout :: GraphLayout where
  "cyclic_layout =
     \<lparr>nodes = [jsx_node ''app'' None 900 80, jsx_node ''x'' (Some ''y'') 640 200,
               jsx_node ''div'' (Some ''app'') 900 120, jsx_node ''y'' (Some ''x'') 660 240],
      edges = [edge_between ''e1'' \<lparr>end_nodeId = Some ''x'', end_x = 640, end_y = 200\<rparr>
                 \<lparr>end_nodeId = Some ''y'', end_x = 660, end_y = 240\<rparr>],
      width = 1000, height = 400, colX = columns 900\<rparr>"

definition cyclic_result :: GraphLayout where
  "cyclic_result =
     \<lparr>nodes = [jsx_node ''app'' None 820 80, jsx_node ''x'' (Some ''y'') 640 200,
               jsx_node ''div'' (Some ''app'') 980 80, jsx_node ''y'' (Some ''x'') 660 240],
      edges = [edge_between ''e1'' \<lparr>end_nodeId = Some ''x'', end_x = 640, end_y = 200\<rparr>
                 \<lparr>end_nodeId = Some ''y'', end_x = 660, end_y = 240\<rparr>],
      width = 1080, height = 400, colX = columns 900\<rparr>"



text \<open>A jsx root with the empty string as its id, and an edge that ends at it.\<close>

definition empty_ref_layout :: GraphLayout where
  "empty_ref_layout =
     \<lparr>nodes = [jsx_node [] None 880 200],
      edges = [edge_between ''e1'' \<lparr>end_nodeId = None, end_x = 500, end_y = 90\<rparr>
                 \<lparr>end_nodeId = Some [], end_x = 870, end_y = 190\<rparr>],
      width = 1000, height = 400, colX = columns 900\<rparr>"

definition empty_ref_result :: GraphLayout where
  "empty_ref_result =
     \<lparr>nodes = [jsx_node [] None 900 80],
      edges = [edge_between ''e1'' \<lparr>end_nodeId = None, end_x = 500, end_y = 90\<rparr>
                 \<lparr>end_nodeId = Some [], end_x = 870, end_y = 190\<rparr>],
      width = 1000, height = 400, colX = columns 900\<rparr>"

text \<open>
  A jsx root with the empty string as its id, and a jsx node with the empty string as
  its parent id.
\<close>

definition empty_root_layout :: GraphLayout where
  "empty_root_layout =
     \<lparr>nodes = [jsx_node [] None 100 100, jsx_node ''a'' (Some []) 100 200],
      edges = [], width = 1000, height = 400, colX = columns 900\<rparr>"

definition empty_root_result :: GraphLayout where
  "empty_root_result =
     \<lparr>nodes = [jsx_node [] None 900 80, jsx_node ''a'' (Some []) 900 120],
      edges = [], width = 1000, height = 400, colX = columns 900\<rparr>"





subsection \<open>The sequence of calls\<close>

text \<open>
  Both traversals make the same calls: the roots in the order of the node list, and under
  each node its children in that order. \<open>calls\<close> lists them, as pairs of the id of the
  visited node and the depth it is visited at, in the order in which they happen; it
  depends on the node ids and on \<^verbatim>\<open>parentIdMap\<close> only. The lemmas \<open>dfs_calls\<close> and
  \<open>assignPosition_calls\<close> below show that the two functions of the source are the folds of
  their own update over this list, and that they return exactly when the list exists.
\<close>

fun collect :: "'a list \<Rightarrow> ('a \<Rightarrow> 'b list option) \<Rightarrow> 'b list option" where
  "collect [] g = Some []"
| "collect (c # cs) g =
     (case g c of None \<Rightarrow> None
      | Some t \<Rightarrow> (case collect cs g of None \<Rightarrow> None | Some ts \<Rightarrow> Some (t @ ts)))"

primrec calls ::
  "nat \<Rightarrow> string list \<Rightarrow> (string, string option) js_map \<Rightarrow> string \<Rightarrow> nat \<Rightarrow>
   (string \<times> nat) list option" where
  "calls 0 ids parentIdMap i depth = None"
| "calls (Suc fuel) ids parentIdMap i depth =
     (case collect (filter (\<lambda>c. parent_get parentIdMap c = Some i) ids)
             (\<lambda>c. calls fuel ids parentIdMap c (depth + 1)) of
        None \<Rightarrow> None
      | Some tr \<Rightarrow> Some ((i, depth) # tr))"

text \<open>What one call of \<^verbatim>\<open>dfs\<close> does to its maps before it recurses.\<close>

definition dfs_step :: "string \<times> nat \<Rightarrow> dfs_state \<Rightarrow> dfs_state" where
  "dfs_step v st =
     (map_set (fst v) (snd v) (fst st),
      map_set (snd v) ((case map_get (snd st) (snd v) of None \<Rightarrow> 0 | Some r \<Rightarrow> r) + 1) (snd st))"

text \<open>What one call of \<^verbatim>\<open>assignPosition\<close> does to its maps before it recurses.\<close>

definition pos_step ::
  "(real \<Rightarrow> real) \<Rightarrow> real \<Rightarrow> nat \<Rightarrow> string \<times> nat \<Rightarrow> pos_state \<Rightarrow> pos_state" where
  "pos_step rnd baseX maxDepth v st =
     (let used = (case map_get (fst st) (snd v) of None \<Rightarrow> 0 | Some u \<Rightarrow> u)
      in (map_set (snd v) (used + 1) (fst st),
          map_set (fst v) (position_x rnd baseX maxDepth (snd v), position_y used) (snd st)))"

text \<open>The calls of a whole pass, from the roots.\<close>

definition call_order :: "nat \<Rightarrow> GraphNode list \<Rightarrow> (string \<times> nat) list option" where
  "call_order fuel jsxNodes =
     collect (map node_id (rootJsxNodes_of jsxNodes))
       (\<lambda>r. calls fuel (map node_id jsxNodes) (parentIdMap_of jsxNodes) r 0)"

subsection \<open>Parent chains\<close>

text \<open>\<open>anc pm k i\<close> follows \<^verbatim>\<open>parentIdMap\<close> for \<open>k\<close> steps from the id \<open>i\<close>.\<close>

fun anc :: "(string, string option) js_map \<Rightarrow> nat \<Rightarrow> string \<Rightarrow> string option" where
  "anc pm 0 i = Some i"
| "anc pm (Suc k) i = (case parent_get pm i of None \<Rightarrow> None | Some j \<Rightarrow> anc pm k j)"

text \<open>
  A root whose parent id is absent or names no jsx node. The root filter of the source
  also accepts an empty parent id when a jsx node has the empty id.
\<close>

definition good_root :: "string list \<Rightarrow> (string, string option) js_map \<Rightarrow> string \<Rightarrow> bool" where
  "good_root ids pm r =
     (r \<in> set ids \<and> (case parent_get pm r of None \<Rightarrow> True | Some q \<Rightarrow> q \<notin> set ids))"

definition keys_in :: "string list \<Rightarrow> (string, string option) js_map \<Rightarrow> bool" where
  "keys_in ids pm = (fst ` set pm \<subseteq> set ids)"

text \<open>
  Some jsx node has the empty string as its id while some jsx node has the empty string
  as its parent id: the root filter takes the latter for a root (\<^verbatim>\<open>!parentId\<close>), the
  child filter takes it for a child of the former (\<^verbatim>\<open>parentId === node.id\<close>).
\<close>

definition empty_parent_resolves :: "GraphNode list \<Rightarrow> bool" where
  "empty_parent_resolves jsxNodes =
     (list_ex (\<lambda>n. node_id n = []) jsxNodes \<and>
      list_ex (\<lambda>c. parent_get (parentIdMap_of jsxNodes) (node_id c) = Some []) jsxNodes)"

text \<open>The number of calls at depth \<open>d\<close> in a sequence of calls.\<close>

definition row_count :: "nat \<Rightarrow> (string \<times> nat) list \<Rightarrow> nat" where
  "row_count d tr = length (filter (\<lambda>v. snd v = d) tr)"

text \<open>\<^verbatim>\<open>map.get(depth) ?? 0\<close>\<close>

definition get_or_zero :: "(nat, nat) js_map \<Rightarrow> nat \<Rightarrow> nat" where
  "get_or_zero m d = (case map_get m d of None \<Rightarrow> 0 | Some u \<Rightarrow> u)"

subsection \<open>The result in terms of the sequence of calls\<close>

text \<open>\<^verbatim>\<open>newNodePositions\<close> after the position pass, and the layout built from it.\<close>

definition positions_of ::
  "(real \<Rightarrow> real) \<Rightarrow> GraphLayout \<Rightarrow> (string \<times> nat) list \<Rightarrow> (string, real \<times> real) js_map" where
  "positions_of rnd layout tr =
     snd (fold (pos_step rnd (col_jsx (colX layout)) (maxDepth_of (fst (fold dfs_step tr ([], [])))))
            tr ([], []))"

definition layout_with :: "GraphLayout \<Rightarrow> (string, real \<times> real) js_map \<Rightarrow> GraphLayout" where
  "layout_with layout newNodePositions =
     \<lparr>nodes = newNodes_of newNodePositions (nodes layout),
      edges = newEdges_of (nodeByIdAfter_of (newNodes_of newNodePositions (nodes layout)))
                (edges layout),
      width = maxX_of (width layout) (newNodes_of newNodePositions (nodes layout)),
      height = maxY_of (height layout) (newNodes_of newNodePositions (nodes layout)),
      colX = colX layout\<rparr>"

section \<open>The traversals as folds over the sequence of calls\<close>

lemma for_each_collect:
  assumes "\<And>c s. c \<in> set cs \<Longrightarrow> body c s = map_option (\<lambda>tr. fold step tr s) (g c)"
  shows "for_each cs body s = map_option (\<lambda>tr. fold step tr s) (collect cs g)"
  using assms
proof (induction cs arbitrary: s)
  case Nil
  then show ?case by simp
next
  case (Cons c cs)
  show ?case
  proof (cases "g c")
    case None
    then show ?thesis using Cons.prems[of c s] by simp
  next
    case (Some t)
    have b: "body c s = Some (fold step t s)" using Cons.prems[of c s] Some by simp
    have "for_each cs body (fold step t s) = map_option (\<lambda>tr. fold step tr (fold step t s)) (collect cs g)"
      by (rule Cons.IH) (simp add: Cons.prems)
    then show ?thesis using b Some by (cases "collect cs g") simp_all
  qed
qed

lemma collect_map: "collect (map h cs) g = collect cs (\<lambda>c. g (h c))"
  by (induction cs) (simp_all split: option.splits)

lemma children_ids:
  "map node_id (children_of jsxNodes pm node) =
   filter (\<lambda>c. parent_get pm c = Some (node_id node)) (map node_id jsxNodes)"
  by (simp add: children_of_def filter_map comp_def)

lemma collect_children:
  "collect (children_of jsxNodes pm node) (\<lambda>c. g (node_id c)) =
   collect (filter (\<lambda>c. parent_get pm c = Some (node_id node)) (map node_id jsxNodes)) g"
  using collect_map[of node_id "children_of jsxNodes pm node" g] by (simp add: children_ids)

lemma fold_step_Cons: "fold step (v # tr) s = fold step tr (step v s)"
  by simp

lemma dfs_calls:
  "dfs fuel jsxNodes pm node depth st =
   map_option (\<lambda>tr. fold dfs_step tr st) (calls fuel (map node_id jsxNodes) pm (node_id node) depth)"
proof (induction fuel arbitrary: node depth st)
  case 0
  then show ?case by simp
next
  case (Suc fuel)
  let ?g = "\<lambda>c. calls fuel (map node_id jsxNodes) pm c (depth + 1)"
  let ?s = "dfs_step (node_id node, depth) st"
  have "dfs (Suc fuel) jsxNodes pm node depth st =
        for_each (children_of jsxNodes pm node) (\<lambda>child. dfs fuel jsxNodes pm child (depth + 1)) ?s"
    by (simp add: Let_def dfs_step_def)
  also have "\<dots> = map_option (\<lambda>tr. fold dfs_step tr ?s)
                    (collect (children_of jsxNodes pm node) (\<lambda>c. ?g (node_id c)))"
    by (rule for_each_collect) (simp add: Suc.IH)
  also have "\<dots> = map_option (\<lambda>tr. fold dfs_step tr st)
                    (calls (Suc fuel) (map node_id jsxNodes) pm (node_id node) depth)"
    using collect_children[of jsxNodes pm node ?g] by (simp split: option.splits)
  finally show ?case .
qed

lemma assignPosition_calls:
  "assignPosition rnd fuel jsxNodes pm baseX maxDepth node depth st =
   map_option (\<lambda>tr. fold (pos_step rnd baseX maxDepth) tr st)
     (calls fuel (map node_id jsxNodes) pm (node_id node) depth)"
proof (induction fuel arbitrary: node depth st)
  case 0
  then show ?case by simp
next
  case (Suc fuel)
  let ?g = "\<lambda>c. calls fuel (map node_id jsxNodes) pm c (depth + 1)"
  let ?s = "pos_step rnd baseX maxDepth (node_id node, depth) st"
  have "assignPosition rnd (Suc fuel) jsxNodes pm baseX maxDepth node depth st =
        for_each (children_of jsxNodes pm node)
          (\<lambda>child. assignPosition rnd fuel jsxNodes pm baseX maxDepth child (depth + 1)) ?s"
    by (simp add: Let_def pos_step_def)
  also have "\<dots> = map_option (\<lambda>tr. fold (pos_step rnd baseX maxDepth) tr ?s)
                    (collect (children_of jsxNodes pm node) (\<lambda>c. ?g (node_id c)))"
    by (rule for_each_collect) (simp add: Suc.IH)
  also have "\<dots> = map_option (\<lambda>tr. fold (pos_step rnd baseX maxDepth) tr st)
                    (calls (Suc fuel) (map node_id jsxNodes) pm (node_id node) depth)"
    using collect_children[of jsxNodes pm node ?g] by (simp split: option.splits)
  finally show ?case .
qed

lemma depth_pass_calls:
  "depth_pass fuel jsxNodes = map_option (\<lambda>tr. fold dfs_step tr ([], [])) (call_order fuel jsxNodes)"
  unfolding depth_pass_def call_order_def collect_map
  by (rule for_each_collect) (simp add: dfs_calls)

lemma position_pass_calls:
  "position_pass rnd fuel jsxNodes baseX maxDepth =
   map_option (\<lambda>tr. fold (pos_step rnd baseX maxDepth) tr ([], [])) (call_order fuel jsxNodes)"
  unfolding position_pass_def call_order_def collect_map
  by (rule for_each_collect) (simp add: assignPosition_calls)

section \<open>Parent chains end at a root after fewer steps than there are jsx nodes\<close>

lemma parent_get_in_ids: "keys_in ids pm \<Longrightarrow> parent_get pm i = Some j \<Longrightarrow> i \<in> set ids"
  unfolding keys_in_def parent_get_def map_get_def
  by (cases "map_of pm i") (force dest: map_of_SomeD)+

lemma anc_add: "anc pm (a + b) i = (case anc pm a i of None \<Rightarrow> None | Some j \<Rightarrow> anc pm b j)"
  by (induction a arbitrary: i) (simp_all split: option.splits)

lemma anc_Suc_right:
  "anc pm (Suc k) i = (case anc pm k i of None \<Rightarrow> None | Some j \<Rightarrow> parent_get pm j)"
  using anc_add[of pm k 1 i] by (simp split: option.splits)

lemma root_no_anc:
  assumes "keys_in ids pm" "good_root ids pm r" "anc pm k r = Some r'" "r' \<in> set ids"
  shows "k = 0"
proof (cases k)
  case 0
  then show ?thesis .
next
  case (Suc k')
  from assms(3) Suc obtain q where q: "parent_get pm r = Some q" "anc pm k' q = Some r'"
    by (auto split: option.splits)
  from q(1) assms(2) have nq: "q \<notin> set ids" by (simp add: good_root_def)
  show ?thesis
  proof (cases k')
    case 0
    with q(2) nq assms(4) show ?thesis by simp
  next
    case (Suc k'')
    with q(2) obtain p where "parent_get pm q = Some p" by (auto split: option.splits)
    with assms(1) nq show ?thesis by (auto dest: parent_get_in_ids)
  qed
qed

lemma depth_unique_le:
  assumes "keys_in ids pm" "anc pm d i = Some r" "good_root ids pm r"
    "anc pm d' i = Some r'" "good_root ids pm r'" "d \<le> d'"
  shows "d = d'"
proof -
  have "anc pm (d + (d' - d)) i = Some r'" using assms(4,6) by simp
  then have "anc pm (d' - d) r = Some r'" using assms(2) by (simp add: anc_add)
  moreover have "r' \<in> set ids" using assms(5) by (simp add: good_root_def)
  ultimately have "d' - d = 0" by (rule root_no_anc[OF assms(1,3)])
  with assms(6) show ?thesis by simp
qed

lemma depth_unique:
  assumes "keys_in ids pm" "anc pm d i = Some r" "good_root ids pm r"
    "anc pm d' i = Some r'" "good_root ids pm r'"
  shows "d = d'"
proof (cases "d \<le> d'")
  case True
  then show ?thesis using depth_unique_le[OF assms] by simp
next
  case False
  then have "d' \<le> d" by simp
  then show ?thesis using depth_unique_le[OF assms(1,4,5,2,3)] by simp
qed

lemma anc_prefix_Some:
  "anc pm d i = Some r \<Longrightarrow> k \<le> d \<Longrightarrow> \<exists>m. anc pm k i = Some m \<and> anc pm (d - k) m = Some r"
  using anc_add[of pm k "d - k" i] by (cases "anc pm k i") simp_all

lemma anc_chain_in_ids:
  assumes "keys_in ids pm" "anc pm d i = Some r" "r \<in> set ids" "k \<le> d" "anc pm k i = Some m"
  shows "m \<in> set ids"
proof (cases "k = d")
  case True
  with assms show ?thesis by simp
next
  case False
  with assms(4) have "Suc k \<le> d" by simp
  from anc_prefix_Some[OF assms(2) this] obtain m' where "anc pm (Suc k) i = Some m'" by blast
  with assms(5) have "parent_get pm m = Some m'"
    using anc_Suc_right[of pm k i] by (simp del: anc.simps)
  with assms(1) show ?thesis by (rule parent_get_in_ids)
qed


section \<open>What the sequence of calls contains\<close>

lemma collect_set:
  "collect cs g = Some tr \<Longrightarrow> v \<in> set tr \<Longrightarrow> \<exists>c\<in>set cs. \<exists>t. g c = Some t \<and> v \<in> set t"
  by (induction cs arbitrary: tr) (auto split: option.splits)

lemma collect_returns: "(\<And>c. c \<in> set cs \<Longrightarrow> g c \<noteq> None) \<Longrightarrow> collect cs g \<noteq> None"
  by (induction cs) (auto split: option.splits)

lemma calls_anc:
  "calls fuel ids pm j d0 = Some tr \<Longrightarrow> (i, d) \<in> set tr \<Longrightarrow>
   d0 \<le> d \<and> anc pm (d - d0) i = Some j"
proof (induction fuel arbitrary: j d0 tr i d)
  case 0
  then show ?case by simp
next
  case (Suc fuel)
  let ?cs = "filter (\<lambda>c. parent_get pm c = Some j) ids"
  from Suc.prems(1) obtain tr' where
    tr': "collect ?cs (\<lambda>c. calls fuel ids pm c (d0 + 1)) = Some tr'" "tr = (j, d0) # tr'"
    by (auto split: option.splits)
  show ?case
  proof (cases "(i, d) = (j, d0)")
    case True
    then show ?thesis by simp
  next
    case False
    with Suc.prems(2) tr'(2) have "(i, d) \<in> set tr'" by auto
    from collect_set[OF tr'(1) this] obtain c t where
      c: "c \<in> set ?cs" "calls fuel ids pm c (d0 + 1) = Some t" "(i, d) \<in> set t" by blast
    from Suc.IH[OF c(2,3)] have le: "d0 + 1 \<le> d" and a: "anc pm (d - (d0 + 1)) i = Some c" by simp_all
    from c(1) have pc: "parent_get pm c = Some j" by simp
    have "d - d0 = Suc (d - (d0 + 1))" using le by simp
    then have "anc pm (d - d0) i = Some j"
      using anc_Suc_right[of pm "d - (d0 + 1)" i] a pc by (simp del: anc.simps)
    with le show ?thesis by simp
  qed
qed

lemma calls_root:
  assumes "calls fuel ids pm j d0 = Some tr" "(i, d) \<in> set tr" "anc pm d0 j = Some r"
  shows "anc pm d i = Some r"
proof -
  from calls_anc[OF assms(1,2)] have le: "d0 \<le> d" and a: "anc pm (d - d0) i = Some j" by simp_all
  have "anc pm ((d - d0) + d0) i = Some r" using a assms(3) by (simp add: anc_add del: anc.simps)
  with le show ?thesis by simp
qed


lemma collect_distinct:
  assumes "distinct cs"
    and "collect cs g = Some tr"
    and "\<And>c t. c \<in> set cs \<Longrightarrow> g c = Some t \<Longrightarrow> distinct (map fst t)"
    and "\<And>c1 c2 t1 t2 i. c1 \<in> set cs \<Longrightarrow> c2 \<in> set cs \<Longrightarrow> g c1 = Some t1 \<Longrightarrow> g c2 = Some t2 \<Longrightarrow>
           i \<in> fst ` set t1 \<Longrightarrow> i \<in> fst ` set t2 \<Longrightarrow> c1 = c2"
  shows "distinct (map fst tr)"
  using assms
proof (induction cs arbitrary: tr)
  case Nil
  then show ?case by simp
next
  case (Cons c cs)
  from Cons.prems(2) obtain t ts where
    t: "g c = Some t" and ts: "collect cs g = Some ts" and tr: "tr = t @ ts"
    by (auto split: option.splits)
  have d1: "distinct (map fst t)" using Cons.prems(3)[of c t] t by simp
  have d2: "distinct (map fst ts)"
  proof (rule Cons.IH[OF _ ts])
    show "distinct cs" using Cons.prems(1) by simp
  next
    fix c' t' assume "c' \<in> set cs" "g c' = Some t'"
    then show "distinct (map fst t')" using Cons.prems(3)[of c' t'] by simp
  next
    fix c1 c2 t1 t2 i
    assume "c1 \<in> set cs" "c2 \<in> set cs" "g c1 = Some t1" "g c2 = Some t2"
      "i \<in> fst ` set t1" "i \<in> fst ` set t2"
    then show "c1 = c2" using Cons.prems(4)[of c1 c2 t1 t2 i] by simp
  qed
  have d3: "fst ` set t \<inter> fst ` set ts = {}"
  proof (rule ccontr)
    assume "fst ` set t \<inter> fst ` set ts \<noteq> {}"
    then obtain i where i: "i \<in> fst ` set t" "i \<in> fst ` set ts" by blast
    from i(2) obtain v where v: "v \<in> set ts" "fst v = i" by auto
    from collect_set[OF ts v(1)] obtain c' t' where
      c': "c' \<in> set cs" "g c' = Some t'" "v \<in> set t'" by blast
    from c'(3) v(2) have "i \<in> fst ` set t'" by auto
    from Cons.prems(4)[of c c' t t' i] c'(1,2) t i(1) this have "c = c'" by simp
    with c'(1) Cons.prems(1) show False by simp
  qed
  show ?case using d1 d2 d3 tr by simp
qed

lemma collect_calls_distinct:
  assumes "keys_in ids pm" "distinct cs"
    and roots: "\<And>c. c \<in> set cs \<Longrightarrow> \<exists>r. good_root ids pm r \<and> anc pm d0 c = Some r"
    and each: "\<And>c t. c \<in> set cs \<Longrightarrow> calls fuel ids pm c d0 = Some t \<Longrightarrow> distinct (map fst t)"
    and "collect cs (\<lambda>c. calls fuel ids pm c d0) = Some tr"
  shows "distinct (map fst tr)"
proof (rule collect_distinct[OF assms(2) assms(5)])
  fix c t assume "c \<in> set cs" "calls fuel ids pm c d0 = Some t"
  then show "distinct (map fst t)" by (rule each)
next
  fix c1 c2 t1 t2 i
  assume c: "c1 \<in> set cs" "c2 \<in> set cs"
    and t: "calls fuel ids pm c1 d0 = Some t1" "calls fuel ids pm c2 d0 = Some t2"
    and i: "i \<in> fst ` set t1" "i \<in> fst ` set t2"
  from i obtain e1 e2 where e: "(i, e1) \<in> set t1" "(i, e2) \<in> set t2" by force
  from roots[OF c(1)] obtain r1 where r1: "good_root ids pm r1" "anc pm d0 c1 = Some r1" by blast
  from roots[OF c(2)] obtain r2 where r2: "good_root ids pm r2" "anc pm d0 c2 = Some r2" by blast
  have a1: "anc pm e1 i = Some r1" by (rule calls_root[OF t(1) e(1) r1(2)])
  have a2: "anc pm e2 i = Some r2" by (rule calls_root[OF t(2) e(2) r2(2)])
  have "e1 = e2" by (rule depth_unique[OF assms(1) a1 r1(1) a2 r2(1)])
  moreover from calls_anc[OF t(1) e(1)] have "anc pm (e1 - d0) i = Some c1" by simp
  moreover from calls_anc[OF t(2) e(2)] have "anc pm (e2 - d0) i = Some c2" by simp
  ultimately show "c1 = c2" by simp
qed

lemma calls_distinct:
  assumes "keys_in ids pm" "distinct ids"
  shows "good_root ids pm r \<Longrightarrow> anc pm d0 j = Some r \<Longrightarrow> calls fuel ids pm j d0 = Some tr \<Longrightarrow>
         distinct (map fst tr)"
proof (induction fuel arbitrary: j d0 tr)
  case 0
  then show ?case by simp
next
  case (Suc fuel)
  let ?cs = "filter (\<lambda>c. parent_get pm c = Some j) ids"
  from Suc.prems(3) obtain tr' where
    tr': "collect ?cs (\<lambda>c. calls fuel ids pm c (d0 + 1)) = Some tr'" "tr = (j, d0) # tr'"
    by (auto split: option.splits)
  have child_root: "anc pm (d0 + 1) c = Some r" if "c \<in> set ?cs" for c
    using that Suc.prems(2) by simp
  have "distinct (map fst tr')"
  proof (rule collect_calls_distinct[OF assms(1) _ _ _ tr'(1)])
    show "distinct ?cs" using assms(2) by simp
  next
    fix c assume "c \<in> set ?cs"
    then show "\<exists>r. good_root ids pm r \<and> anc pm (d0 + 1) c = Some r"
      using child_root Suc.prems(1) by blast
  next
    fix c t assume "c \<in> set ?cs" "calls fuel ids pm c (d0 + 1) = Some t"
    then show "distinct (map fst t)" using Suc.IH[OF Suc.prems(1) child_root] by blast
  qed
  moreover have "j \<notin> fst ` set tr'"
  proof
    assume "j \<in> fst ` set tr'"
    then obtain d where d: "(j, d) \<in> set tr'" by force
    from collect_set[OF tr'(1) d] obtain c t where
      c: "c \<in> set ?cs" "calls fuel ids pm c (d0 + 1) = Some t" "(j, d) \<in> set t" by blast
    from calls_anc[OF c(2,3)] have le: "d0 + 1 \<le> d" by simp
    have "anc pm d j = Some r" by (rule calls_root[OF c(2,3) child_root[OF c(1)]])
    from depth_unique[OF assms(1) this Suc.prems(1) Suc.prems(2) Suc.prems(1)] le
    show False by simp
  qed
  ultimately show ?case using tr'(2) by simp
qed

section \<open>The maps built from the jsx nodes\<close>

lemma map_of_fold_map_set:
  "map_of (fold (\<lambda>n m. map_set (K n) (V n) m) xs m0) =
   map_of m0 ++ map_of (rev (map (\<lambda>n. (K n, V n)) xs))"
proof (induction xs arbitrary: m0)
  case Nil
  then show ?case by simp
next
  case (Cons x xs)
  have "map_of (fold (\<lambda>n m. map_set (K n) (V n) m) (x # xs) m0) =
        map_of (map_set (K x) (V x) m0) ++ map_of (rev (map (\<lambda>n. (K n, V n)) xs))"
    using Cons.IH[of "map_set (K x) (V x) m0"] by simp
  also have "\<dots> = map_of m0 ++ map_of (rev (map (\<lambda>n. (K n, V n)) (x # xs)))"
    by (simp add: map_set_def update_conv' fun_eq_iff map_add_def split: option.splits)
  finally show ?case .
qed

lemma dom_fold_map_set:
  "dom (map_of (fold (\<lambda>n m. map_set (K n) (V n) m) xs [])) = K ` set xs"
  by (simp add: map_of_fold_map_set dom_map_of_conv_image_fst image_image)

lemma map_of_fold_map_set_distinct:
  assumes "distinct (map K xs)" "n \<in> set xs"
  shows "map_of (fold (\<lambda>n m. map_set (K n) (V n) m) xs []) (K n) = Some (V n)"
proof -
  have "distinct (map fst (rev (map (\<lambda>n. (K n, V n)) xs)))"
    using assms(1) by (simp add: rev_map[symmetric] comp_def)
  moreover have "(K n, V n) \<in> set (rev (map (\<lambda>n. (K n, V n)) xs))" using assms(2) by auto
  ultimately show ?thesis by (simp add: map_of_fold_map_set del: set_rev set_map)
qed

lemma parentIdMap_keys: "keys_in (map node_id jsxNodes) (parentIdMap_of jsxNodes)"
proof -
  have "dom (map_of (parentIdMap_of jsxNodes)) = node_id ` set jsxNodes"
    unfolding parentIdMap_of_def by (rule dom_fold_map_set)
  then show ?thesis by (simp add: keys_in_def dom_map_of_conv_image_fst)
qed

lemma jsxNodeById_has: "map_has (jsxNodeById_of jsxNodes) k \<longleftrightarrow> k \<in> node_id ` set jsxNodes"
proof -
  have "dom (map_of (jsxNodeById_of jsxNodes)) = node_id ` set jsxNodes"
    unfolding jsxNodeById_of_def by (rule dom_fold_map_set)
  then show ?thesis by (auto simp: map_has_def)
qed

lemma parentIdMap_get_distinct:
  assumes "distinct (map node_id jsxNodes)" "n \<in> set jsxNodes"
  shows "parent_get (parentIdMap_of jsxNodes) (node_id n) = meta_jsxParentId n"
  using map_of_fold_map_set_distinct[OF assms, of meta_jsxParentId]
  by (simp add: parent_get_def map_get_def parentIdMap_of_def)

lemma is_root_iff:
  "is_root (parentIdMap_of jsxNodes) (jsxNodeById_of jsxNodes) i \<longleftrightarrow>
   (case parent_get (parentIdMap_of jsxNodes) i of
      None \<Rightarrow> True
    | Some p \<Rightarrow> p = [] \<or> p \<notin> node_id ` set jsxNodes)"
  by (simp add: is_root_def jsxNodeById_has split: option.splits)

lemma root_good:
  assumes "\<not> empty_parent_resolves jsxNodes" "n \<in> set (rootJsxNodes_of jsxNodes)"
  shows "good_root (map node_id jsxNodes) (parentIdMap_of jsxNodes) (node_id n)"
proof -
  let ?pm = "parentIdMap_of jsxNodes"
  from assms(2) have n: "n \<in> set jsxNodes"
    and r: "is_root ?pm (jsxNodeById_of jsxNodes) (node_id n)"
    by (simp_all add: rootJsxNodes_of_def)
  show ?thesis
  proof (cases "parent_get ?pm (node_id n)")
    case None
    then show ?thesis using n by (simp add: good_root_def)
  next
    case (Some p)
    have "p \<notin> node_id ` set jsxNodes"
    proof (cases "p = []")
      case True
      with Some n have "list_ex (\<lambda>c. parent_get ?pm (node_id c) = Some []) jsxNodes"
        by (auto simp: list_ex_iff)
      with assms(1) have "\<not> list_ex (\<lambda>n. node_id n = []) jsxNodes"
        by (simp add: empty_parent_resolves_def)
      with True show ?thesis by (auto simp: list_ex_iff)
    next
      case False
      with r Some show ?thesis by (simp add: is_root_iff)
    qed
    with Some n show ?thesis by (simp add: good_root_def)
  qed
qed


lemma call_order_distinct:
  assumes "\<not> empty_parent_resolves jsxNodes" "distinct (map node_id jsxNodes)"
    "call_order fuel jsxNodes = Some tr"
  shows "distinct (map fst tr)"
proof (rule collect_calls_distinct[OF parentIdMap_keys _ _ _ assms(3)[unfolded call_order_def]])
  show "distinct (map node_id (rootJsxNodes_of jsxNodes))"
    using assms(2) by (simp add: rootJsxNodes_of_def distinct_map_filter)
next
  fix c assume "c \<in> set (map node_id (rootJsxNodes_of jsxNodes))"
  then obtain n where n: "n \<in> set (rootJsxNodes_of jsxNodes)" "c = node_id n" by auto
  then show "\<exists>r. good_root (map node_id jsxNodes) (parentIdMap_of jsxNodes) r \<and>
                 anc (parentIdMap_of jsxNodes) 0 c = Some r"
    using root_good[OF assms(1) n(1)] by simp
next
  fix c t
  assume "c \<in> set (map node_id (rootJsxNodes_of jsxNodes))"
    "calls fuel (map node_id jsxNodes) (parentIdMap_of jsxNodes) c 0 = Some t"
  then obtain n where n: "n \<in> set (rootJsxNodes_of jsxNodes)" "c = node_id n" by auto
  have g: "good_root (map node_id jsxNodes) (parentIdMap_of jsxNodes) c"
    using root_good[OF assms(1) n(1)] n(2) by simp
  show "distinct (map fst t)"
    by (rule calls_distinct[OF parentIdMap_keys assms(2) g _ \<open>calls fuel _ _ c 0 = Some t\<close>]) simp
qed

section \<open>The maps after a pass\<close>

lemma get_or_zero_set:
  "get_or_zero (map_set d u m) d' = (if d' = d then u else get_or_zero m d')"
  by (simp add: get_or_zero_def map_get_def map_set_def update_conv')

lemma pos_step_fst:
  "fst (pos_step rnd baseX maxDepth v st) = map_set (snd v) (get_or_zero (fst st) (snd v) + 1) (fst st)"
  by (simp add: pos_step_def Let_def get_or_zero_def)

lemma pos_step_snd:
  "snd (pos_step rnd baseX maxDepth v st) =
   map_set (fst v) (position_x rnd baseX maxDepth (snd v), position_y (get_or_zero (fst st) (snd v))) (snd st)"
  by (simp add: pos_step_def Let_def get_or_zero_def)

lemma dfs_step_fst: "fst (dfs_step v st) = map_set (fst v) (snd v) (fst st)"
  by (simp add: dfs_step_def)

lemma dfs_step_snd:
  "snd (dfs_step v st) = map_set (snd v) (get_or_zero (snd st) (snd v) + 1) (snd st)"
  by (simp add: dfs_step_def get_or_zero_def)

lemma used_rows_fold:
  "get_or_zero (fst (fold (pos_step rnd baseX maxDepth) tr ([], []))) d = row_count d tr"
proof (induction tr arbitrary: d rule: rev_induct)
  case Nil
  then show ?case by (simp add: get_or_zero_def map_get_def row_count_def)
next
  case (snoc v tr)
  then show ?case by (simp add: pos_step_fst get_or_zero_set row_count_def)
qed

lemma row_index_fold:
  "get_or_zero (snd (fold dfs_step tr ([], []))) d = row_count d tr"
proof (induction tr arbitrary: d rule: rev_induct)
  case Nil
  then show ?case by (simp add: get_or_zero_def map_get_def row_count_def)
next
  case (snoc v tr)
  then show ?case by (simp add: dfs_step_snd get_or_zero_set row_count_def)
qed

lemma positions_snoc:
  "map_of (snd (fold (pos_step rnd baseX maxDepth) (tr @ [v]) ([], []))) =
   (map_of (snd (fold (pos_step rnd baseX maxDepth) tr ([], []))))
     (fst v \<mapsto> (position_x rnd baseX maxDepth (snd v), position_y (row_count (snd v) tr)))"
  by (simp add: pos_step_snd used_rows_fold map_set_def update_conv')

lemma depths_snoc:
  "map_of (fst (fold dfs_step (tr @ [v]) ([], []))) =
   (map_of (fst (fold dfs_step tr ([], []))))(fst v \<mapsto> snd v)"
  by (simp add: dfs_step_fst map_set_def update_conv')



lemma positions_dom:
  "dom (map_of (snd (fold (pos_step rnd baseX maxDepth) tr ([], [])))) = fst ` set tr"
proof (induction tr rule: rev_induct)
  case Nil
  then show ?case by simp
next
  case (snoc v tr)
  have "dom (map_of (snd (fold (pos_step rnd baseX maxDepth) (tr @ [v]) ([], [])))) =
        insert (fst v) (dom (map_of (snd (fold (pos_step rnd baseX maxDepth) tr ([], [])))))"
    unfolding positions_snoc by (auto simp: dom_def)
  then show ?case unfolding snoc by simp
qed

lemma depths_dom: "dom (map_of (fst (fold dfs_step tr ([], [])))) = fst ` set tr"
proof (induction tr rule: rev_induct)
  case Nil
  then show ?case by simp
next
  case (snoc v tr)
  have "dom (map_of (fst (fold dfs_step (tr @ [v]) ([], [])))) =
        insert (fst v) (dom (map_of (fst (fold dfs_step tr ([], [])))))"
    unfolding depths_snoc by (auto simp: dom_def)
  then show ?case unfolding snoc by simp
qed

lemma depths_ran:
  "map_of (fst (fold dfs_step tr ([], []))) i = Some d \<Longrightarrow> (i, d) \<in> set tr"
proof (induction tr rule: rev_induct)
  case Nil
  then show ?case by simp
next
  case (snoc v tr)
  from snoc.prems have "(if i = fst v then Some (snd v)
      else map_of (fst (fold dfs_step tr ([], []))) i) = Some d"
    unfolding depths_snoc by simp
  then show ?case using snoc.IH by (cases "i = fst v") (auto intro: prod_eqI)
qed

lemma positions_ran:
  "map_of (snd (fold (pos_step rnd baseX maxDepth) tr ([], []))) i = Some p \<Longrightarrow>
   \<exists>d r. (i, d) \<in> set tr \<and> p = (position_x rnd baseX maxDepth d, position_y r)"
proof (induction tr rule: rev_induct)
  case Nil
  then show ?case by simp
next
  case (snoc v tr)
  show ?case
  proof (cases "i = fst v")
    case True
    with snoc.prems
    have "p = (position_x rnd baseX maxDepth (snd v), position_y (row_count (snd v) tr))"
      unfolding positions_snoc by simp
    moreover have "(i, snd v) \<in> set (tr @ [v])" using True by simp
    ultimately show ?thesis by blast
  next
    case False
    with snoc.prems
    have "map_of (snd (fold (pos_step rnd baseX maxDepth) tr ([], []))) i = Some p"
      unfolding positions_snoc by simp
    from snoc.IH[OF this] show ?thesis by auto
  qed
qed






section \<open>The result of the transformer\<close>

lemma apply_eq:
  "applyJsxTreeLayout rnd fuel layout =
   (if jsxNodes_of (nodes layout) = [] then Some layout
    else map_option (\<lambda>tr. layout_with layout (positions_of rnd layout tr))
           (call_order fuel (jsxNodes_of (nodes layout))))"
  by (cases "call_order fuel (jsxNodes_of (nodes layout))")
     (simp_all add: applyJsxTreeLayout_def Let_def depth_pass_calls position_pass_calls
        layout_with_def positions_of_def)

lemma apply_cases:
  assumes "applyJsxTreeLayout rnd fuel layout = Some layout'"
  obtains (passthrough) "jsxNodes_of (nodes layout) = []" "layout' = layout"
  | (laid_out) tr where "jsxNodes_of (nodes layout) \<noteq> []"
      "call_order fuel (jsxNodes_of (nodes layout)) = Some tr"
      "layout' = layout_with layout (positions_of rnd layout tr)"
  using assms unfolding apply_eq by (auto split: if_splits)

lemma scenario_run: "applyJsxTreeLayout round64 2 scenario = Some scenario_result"
  by code_simp

text \<open>
  Claim C2. When no node of the input layout has kind jsx, the transformer returns the
  input layout itself, whatever the stack bound: nodes, edges, coordinates, column anchors,
  width and height are those of the input.
\<close>

theorem passthrough_without_jsx:
  "\<forall>n \<in> set (nodes layout). node_kind n \<noteq> Jsx \<Longrightarrow>
   applyJsxTreeLayout rnd fuel layout = Some layout"
  by (simp add: applyJsxTreeLayout_def jsxNodes_of_def filter_empty_conv)

theorem passthrough_without_jsx_witness: "applyJsxTreeLayout round64 0 plain_layout = Some plain_layout"
  by (rule passthrough_without_jsx) (simp add: plain_layout_def state_node_def)

lemma maxX_ge: "w \<le> maxX_of w ns"
  unfolding maxX_of_def
proof (induction ns arbitrary: w)
  case Nil
  then show ?case by simp
next
  case (Cons n ns)
  let ?w' = "if node_x n + node_width n / 2 + 40 > w then node_x n + node_width n / 2 + 40 else w"
  have "w \<le> ?w'" by simp
  also have "?w' \<le> fold (\<lambda>node maxX. let right = node_x node + node_width node / 2 + 40
                        in if right > maxX then right else maxX) ns ?w'" by (rule Cons.IH)
  finally show ?case by (simp add: Let_def)
qed

lemma maxY_ge: "h \<le> maxY_of h ns"
  unfolding maxY_of_def
proof (induction ns arbitrary: h)
  case Nil
  then show ?case by simp
next
  case (Cons n ns)
  let ?h' = "if node_y n + node_height n / 2 + 40 > h then node_y n + node_height n / 2 + 40 else h"
  have "h \<le> ?h'" by simp
  also have "?h' \<le> fold (\<lambda>node maxY. let bottom = node_y node + node_height node / 2 + 40
                        in if bottom > maxY then bottom else maxY) ns ?h'" by (rule Cons.IH)
  finally show ?case by (simp add: Let_def)
qed

lemma maxX_upper: "n \<in> set ns \<Longrightarrow> node_x n + node_width n / 2 + 40 \<le> maxX_of w ns"
proof (induction ns arbitrary: w)
  case Nil
  then show ?case by simp
next
  case (Cons m ns)
  let ?w' = "if node_x m + node_width m / 2 + 40 > w then node_x m + node_width m / 2 + 40 else w"
  have step: "maxX_of w (m # ns) = maxX_of ?w' ns" by (simp add: maxX_of_def Let_def)
  show ?case
  proof (cases "n = m")
    case True
    have "node_x m + node_width m / 2 + 40 \<le> ?w'" by simp
    also have "\<dots> \<le> maxX_of ?w' ns" by (rule maxX_ge)
    finally show ?thesis using True step by simp
  next
    case False
    with Cons.prems have "n \<in> set ns" by simp
    from Cons.IH[OF this, of ?w'] step show ?thesis by simp
  qed
qed

lemma maxY_upper: "n \<in> set ns \<Longrightarrow> node_y n + node_height n / 2 + 40 \<le> maxY_of h ns"
proof (induction ns arbitrary: h)
  case Nil
  then show ?case by simp
next
  case (Cons m ns)
  let ?h' = "if node_y m + node_height m / 2 + 40 > h then node_y m + node_height m / 2 + 40 else h"
  have step: "maxY_of h (m # ns) = maxY_of ?h' ns" by (simp add: maxY_of_def Let_def)
  show ?case
  proof (cases "n = m")
    case True
    have "node_y m + node_height m / 2 + 40 \<le> ?h'" by simp
    also have "\<dots> \<le> maxY_of ?h' ns" by (rule maxY_ge)
    finally show ?thesis using True step by simp
  next
    case False
    with Cons.prems have "n \<in> set ns" by simp
    from Cons.IH[OF this, of ?h'] step show ?thesis by simp
  qed
qed

lemma maxX_fixed: "\<forall>n\<in>set ns. node_x n + node_width n / 2 + 40 \<le> w \<Longrightarrow> maxX_of w ns = w"
  unfolding maxX_of_def by (induction ns) (simp_all add: Let_def)

lemma maxY_fixed: "\<forall>n\<in>set ns. node_y n + node_height n / 2 + 40 \<le> h \<Longrightarrow> maxY_of h ns = h"
  unfolding maxY_of_def by (induction ns) (simp_all add: Let_def)

text \<open>
  Claim C7. The width and the height of the output layout are at least those of the input
  layout: the canvas only grows.
\<close>

theorem canvas_only_grows:
  "applyJsxTreeLayout rnd fuel layout = Some layout' \<Longrightarrow>
   width layout \<le> width layout' \<and> height layout \<le> height layout'"
  by (erule apply_cases) (simp_all add: layout_with_def maxX_ge maxY_ge)

theorem canvas_only_grows_witness:
  "applyJsxTreeLayout round64 2 scenario = Some scenario_result \<and>
   width scenario \<le> width scenario_result \<and> height scenario \<le> height scenario_result"
  using canvas_only_grows[OF scenario_run] scenario_run by simp

section \<open>Every visit descends from a root\<close>

lemma collect_each:
  "collect cs g = Some tr \<Longrightarrow> c \<in> set cs \<Longrightarrow> \<exists>t. g c = Some t \<and> set t \<subseteq> set tr"
  by (induction cs arbitrary: tr) (fastforce split: option.splits)+

lemma calls_head: "calls fuel ids pm i d = Some tr \<Longrightarrow> (i, d) \<in> set tr"
  by (cases fuel) (auto split: option.splits)

lemma root_visited:
  assumes "call_order fuel ns = Some tr" "n \<in> set (rootJsxNodes_of ns)"
  shows "(node_id n, 0) \<in> set tr"
proof -
  from assms(2) have "node_id n \<in> set (map node_id (rootJsxNodes_of ns))" by simp
  from collect_each[OF assms(1)[unfolded call_order_def] this] obtain t where
    t: "calls fuel (map node_id ns) (parentIdMap_of ns) (node_id n) 0 = Some t" "set t \<subseteq> set tr"
    by blast
  from calls_head[OF t(1)] t(2) show ?thesis by auto
qed

lemma visited_from_root:
  assumes "call_order fuel ns = Some tr" "(i, d) \<in> set tr"
  shows "\<exists>r\<in>set (rootJsxNodes_of ns). anc (parentIdMap_of ns) d i = Some (node_id r)"
proof -
  from collect_set[OF assms(1)[unfolded call_order_def] assms(2)] obtain r t where
    r: "r \<in> set (map node_id (rootJsxNodes_of ns))"
    "calls fuel (map node_id ns) (parentIdMap_of ns) r 0 = Some t" "(i, d) \<in> set t" by blast
  from calls_anc[OF r(2,3)] have "anc (parentIdMap_of ns) d i = Some r" by simp
  with r(1) show ?thesis by auto
qed

lemma last_visit:
  assumes "i \<in> fst ` set tr"
  shows "\<exists>pre d post. tr = pre @ (i, d) # post \<and> i \<notin> fst ` set post"
proof -
  from assms have "\<exists>v\<in>set tr. fst v = i" by auto
  from split_list_last_prop[OF this] obtain pre v post where
    "tr = pre @ v # post" "fst v = i" "\<forall>z\<in>set post. fst z \<noteq> i" by blast
  then have "tr = pre @ (i, snd v) # post \<and> i \<notin> fst ` set post" by auto
  then show ?thesis by blast
qed

lemma calls_ids:
  "calls fuel ids pm j d = Some tr \<Longrightarrow> j \<in> set ids \<Longrightarrow> fst ` set tr \<subseteq> set ids"
proof (induction fuel arbitrary: j d tr)
  case 0
  then show ?case by simp
next
  case (Suc fuel)
  let ?cs = "filter (\<lambda>c. parent_get pm c = Some j) ids"
  from Suc.prems(1) obtain tr' where
    tr': "collect ?cs (\<lambda>c. calls fuel ids pm c (d + 1)) = Some tr'" "tr = (j, d) # tr'"
    by (auto split: option.splits)
  have "fst v \<in> set ids" if "v \<in> set tr'" for v
  proof -
    from collect_set[OF tr'(1) that] obtain c t where
      c: "c \<in> set ?cs" "calls fuel ids pm c (d + 1) = Some t" "v \<in> set t" by blast
    from c(1) have "c \<in> set ids" by simp
    from Suc.IH[OF c(2) this] c(3) show ?thesis by auto
  qed
  then show ?case using tr'(2) Suc.prems(2) by auto
qed

lemma call_order_ids:
  assumes "call_order fuel ns = Some tr"
  shows "fst ` set tr \<subseteq> node_id ` set ns"
proof
  fix i assume "i \<in> fst ` set tr"
  then obtain v where v: "v \<in> set tr" "i = fst v" by auto
  from collect_set[OF assms[unfolded call_order_def] v(1)] obtain r t where
    r: "r \<in> set (map node_id (rootJsxNodes_of ns))"
    "calls fuel (map node_id ns) (parentIdMap_of ns) r 0 = Some t" "v \<in> set t" by blast
  from r(1) have "r \<in> set (map node_id ns)" by (auto simp: rootJsxNodes_of_def)
  from calls_ids[OF r(2) this] r(3) v(2) show "i \<in> node_id ` set ns" by auto
qed

lemma visited_is_jsx:
  assumes "call_order fuel (jsxNodes_of ns) = Some tr" "v \<in> set tr"
  shows "\<exists>n\<in>set ns. node_kind n = Jsx \<and> node_id n = fst v"
proof -
  from call_order_ids[OF assms(1)] assms(2) have "fst v \<in> node_id ` set (jsxNodes_of ns)" by auto
  then show ?thesis by (auto simp: jsxNodes_of_def)
qed

section \<open>The rounding of the doubles\<close>

text \<open>
  \<open>round64\<close> sends no non-negative number below 0, and leaves the integers of magnitude
  below \<open>2\<^sup>5\<^sup>3\<close> as they are: the product \<open>D * 160\<close> and its half are exact for every
  \<open>D\<close> below \<open>2\<^sup>4\<^sup>5\<close>.
\<close>

lemma pow2_pos: "0 < pow2 e"
  by (simp add: pow2_def)

lemma round_half_even_nonneg: "0 \<le> y \<Longrightarrow> 0 \<le> round_half_even y"
  by (simp add: round_half_even_def Let_def)

lemma round64_nonneg: "0 \<le> a \<Longrightarrow> 0 \<le> round64 a"
  using pow2_pos[of "max (binade a - 52) (- 1074)"]
  by (simp add: round64_def Let_def round_half_even_nonneg)

lemma round_half_even_int: "round_half_even (of_int k) = k"
  by (simp add: round_half_even_def Let_def)

lemma binade_int:
  assumes "z \<noteq> 0"
  shows "binade (of_int z) = bitlen \<bar>z\<bar> - 1"
proof -
  from assms have "1 \<le> \<bar>z\<bar>" by simp
  then have "(1::real) \<le> \<bar>of_int z\<bar>" by (metis of_int_1_le_iff of_int_abs)
  moreover have "\<lfloor>\<bar>of_int z :: real\<bar>\<rfloor> = \<bar>z\<bar>" by (metis floor_of_int of_int_abs)
  ultimately show ?thesis by (simp add: binade_def)
qed

lemma round64_int_exact:
  assumes "\<bar>z\<bar> < 2 ^ 53"
  shows "round64 (of_int z) = of_int z"
proof (cases "z = 0")
  case True
  then show ?thesis by (simp add: round64_def)
next
  case False
  define e where "e = max (binade (of_int z) - 52) (- 1074)"
  define m where "m = nat (- e)"
  from assms have "bitlen \<bar>z\<bar> \<le> 53" by (simp add: bitlen_le_iff_power)
  then have e: "e \<le> 0" by (simp add: e_def binade_int[OF False])
  have u: "pow2 e = 1 / 2 ^ m" using e by (auto simp: pow2_def m_def)
  have "of_int z / pow2 e = (of_int (z * 2 ^ m) :: real)" by (simp add: u)
  then have "round_half_even (of_int z / pow2 e) = z * 2 ^ m"
    by (simp only: round_half_even_int)
  then have "of_int (round_half_even (of_int z / pow2 e)) * pow2 e = (of_int z :: real)"
    by (simp add: u)
  with False show ?thesis by (simp add: round64_def Let_def e_def)
qed

lemma round64_nat_exact: "n < 2 ^ 53 \<Longrightarrow> round64 (real n) = real n"
  using round64_int_exact[of "int n"] by simp

lemma round64_depth_span:
  assumes "D < 2 ^ 45"
  shows "round64 (real D * 160) = real D * 160 \<and> round64 (real D * 160 / 2) = real D * 160 / 2"
proof -
  have p: "(2::nat) ^ 53 = 2 ^ 45 * 256" by simp
  from assms have a: "D * 160 < 2 ^ 53" and b: "D * 80 < 2 ^ 53" unfolding p by linarith+
  have c: "real (D * 160) = real D * 160" and d: "real (D * 80) = real D * 160 / 2"
    by simp_all
  from round64_nat_exact[OF a] round64_nat_exact[OF b] show ?thesis unfolding c d by (rule conjI)
qed



lemma newNodes_length: "length (newNodes_of P ns) = length ns"
  by (simp add: newNodes_of_def)


lemma newNodes_nth_None:
  "k < length ns \<Longrightarrow> map_of P (node_id (ns ! k)) = None \<Longrightarrow> newNodes_of P ns ! k = ns ! k"
  by (simp add: newNodes_of_def map_get_def)

lemma jsx_exists: "list_ex (\<lambda>n. node_kind n = Jsx) ns \<longleftrightarrow> jsxNodes_of ns \<noteq> []"
  by (auto simp: jsxNodes_of_def list_ex_iff filter_empty_conv)







lemma mixed_run: "applyJsxTreeLayout round64 1 mixed_layout = Some mixed_result"
  by code_simp

lemma newNodes_ids: "map node_id (newNodes_of P ns) = map node_id ns"
  by (simp add: newNodes_of_def split: option.splits)

lemma newNodes_id_set: "node_id ` set (newNodes_of P ns) = node_id ` set ns"
  using newNodes_ids[of P ns] by (metis list.set_map)

lemma newNodes_append:
  "newNodes_of P (ns1 @ n # ns2) = newNodes_of P ns1 @ hd (newNodes_of P [n]) # newNodes_of P ns2"
  by (simp add: newNodes_of_def)

lemma newNodes_single_None: "map_of P (node_id n) = None \<Longrightarrow> hd (newNodes_of P [n]) = n"
  by (simp add: newNodes_of_def map_get_def)

lemma nodeByIdAfter_last:
  assumes "node_id n \<notin> node_id ` set ns2"
  shows "map_get (nodeByIdAfter_of (ns1 @ n # ns2)) (node_id n) = Some n"
proof -
  have "map_of (rev (map (\<lambda>m. (node_id m, m)) ns2)) (node_id n) = None"
    using assms by (simp add: map_of_eq_None_iff image_image)
  moreover have "map_of (nodeByIdAfter_of (ns1 @ n # ns2)) =
      map_of (rev (map (\<lambda>m. (node_id m, m)) (ns1 @ n # ns2)))"
    unfolding nodeByIdAfter_of_def map_of_fold_map_set by simp
  ultimately show ?thesis by (simp add: map_get_def map_add_def)
qed

lemma nodeByIdAfter_has: "map_has (nodeByIdAfter_of ns) i \<longleftrightarrow> i \<in> node_id ` set ns"
proof -
  have "dom (map_of (nodeByIdAfter_of ns)) = node_id ` set ns"
    unfolding nodeByIdAfter_of_def by (rule dom_fold_map_set)
  then show ?thesis by (auto simp: map_has_def)
qed

lemma newEnd_nodeId: "end_nodeId (newEnd m e) = end_nodeId e"
  by (simp add: newEnd_def split: option.splits)

lemma newEnd_unchanged:
  "end_nodeId e = None \<or> end_nodeId e = Some [] \<or>
   (\<exists>i. end_nodeId e = Some i \<and> i \<notin> node_id ` set ns) \<Longrightarrow>
   newEnd (nodeByIdAfter_of ns) e = e"
  by (auto simp: newEnd_def nodeByIdAfter_has split: option.splits)

lemma newEnd_snapshot:
  assumes "end_nodeId e = Some i" "i \<noteq> []" "ns = ns1 @ n # ns2" "node_id n = i"
    "i \<notin> node_id ` set ns2"
  shows "end_x (newEnd (nodeByIdAfter_of ns) e) = node_x n \<and>
         end_y (newEnd (nodeByIdAfter_of ns) e) = node_y n"
proof -
  have "map_get (nodeByIdAfter_of ns) i = Some n"
    using nodeByIdAfter_last[of n ns2 ns1] assms by simp
  moreover have "map_has (nodeByIdAfter_of ns) i" using assms by (simp add: nodeByIdAfter_has)
  ultimately show ?thesis using assms(1,2) by (simp add: newEnd_def)
qed

lemma newEdges_nth:
  "k < length es \<Longrightarrow>
   edge_from (newEdges_of m es ! k) = newEnd m (edge_from (es ! k)) \<and>
   edge_to (newEdges_of m es ! k) = newEnd m (edge_to (es ! k))"
  by (simp add: newEdges_of_def)

lemma output_end:
  assumes "applyJsxTreeLayout rnd fuel layout = Some layout'" "jsxNodes_of (nodes layout) \<noteq> []"
    "k < length (edges layout)" "ep = edge_from \<or> ep = edge_to"
  shows "ep (edges layout' ! k) = newEnd (nodeByIdAfter_of (nodes layout')) (ep (edges layout ! k))"
  using assms(1)
proof (cases rule: apply_cases)
  case passthrough
  with assms(2) show ?thesis by simp
next
  case (laid_out tr)
  then show ?thesis using assms(3,4) by (auto simp: layout_with_def newEdges_nth)
qed

lemma empty_ref_run: "applyJsxTreeLayout round64 1 empty_ref_layout = Some empty_ref_result"
  by code_simp

lemma mixed_calls: "call_order 1 (jsxNodes_of (nodes mixed_layout)) = Some [(''root'', 0)]"
  by code_simp

lemma mixed_has_jsx: "list_ex (\<lambda>n. node_kind n = Jsx) (nodes mixed_layout)"
  by (simp add: mixed_layout_def jsx_node_def)

lemma not_visited_unchanged:
  assumes "i \<notin> fst ` set tr" "node_id n = i"
  shows "hd (newNodes_of (positions_of rnd layout tr) [n]) = n"
proof -
  have "dom (map_of (positions_of rnd layout tr)) = fst ` set tr"
    unfolding positions_of_def by (rule positions_dom)
  with assms have "map_of (positions_of rnd layout tr) (node_id n) = None" by auto
  then show ?thesis by (rule newNodes_single_None)
qed

text \<open>
  Claim C3, as amended. The output has as many edges as the input, and the node reference
  of an endpoint is never changed. An endpoint
  with a non-empty reference to a repositioned node has the coordinates of that node in
  the output (of the last node with that id, should ids repeat). An endpoint with no
  reference, with the empty string as reference, or with a reference that matches no
  node is unchanged, and so is every endpoint when the layout has no jsx node. On a
  layout with a jsx node, an endpoint with a non-empty reference to a node that was not
  repositioned gets the coordinates of that node, which are those of the input node: it is
  unchanged only if its snapshot was equal to them.
\<close>

theorem endpoint_reconciliation:
  assumes "applyJsxTreeLayout rnd fuel layout = Some layout'"
    and "k < length (edges layout)"
    and "ep \<in> {edge_from, edge_to}"
  shows "length (edges layout') = length (edges layout) \<and>
    end_nodeId (ep (edges layout' ! k)) = end_nodeId (ep (edges layout ! k)) \<and>
    (\<forall>tr i ns1 n ns2.
       call_order fuel (jsxNodes_of (nodes layout)) = Some tr \<and>
       list_ex (\<lambda>n. node_kind n = Jsx) (nodes layout) \<and>
       end_nodeId (ep (edges layout ! k)) = Some i \<and> i \<noteq> [] \<and> i \<in> fst ` set tr \<and>
       nodes layout' = ns1 @ n # ns2 \<and> node_id n = i \<and> i \<notin> node_id ` set ns2 \<longrightarrow>
       end_x (ep (edges layout' ! k)) = node_x n \<and> end_y (ep (edges layout' ! k)) = node_y n) \<and>
    (end_nodeId (ep (edges layout ! k)) = None \<or> end_nodeId (ep (edges layout ! k)) = Some [] \<or>
     (\<exists>i. end_nodeId (ep (edges layout ! k)) = Some i \<and> i \<notin> node_id ` set (nodes layout)) \<longrightarrow>
       ep (edges layout' ! k) = ep (edges layout ! k)) \<and>
    (\<not> list_ex (\<lambda>n. node_kind n = Jsx) (nodes layout) \<longrightarrow>
       ep (edges layout' ! k) = ep (edges layout ! k)) \<and>
    (\<forall>tr i ns1 n ns2.
       call_order fuel (jsxNodes_of (nodes layout)) = Some tr \<and>
       list_ex (\<lambda>n. node_kind n = Jsx) (nodes layout) \<and>
       end_nodeId (ep (edges layout ! k)) = Some i \<and> i \<noteq> [] \<and> i \<notin> fst ` set tr \<and>
       nodes layout = ns1 @ n # ns2 \<and> node_id n = i \<and> i \<notin> node_id ` set ns2 \<longrightarrow>
       end_x (ep (edges layout' ! k)) = node_x n \<and> end_y (ep (edges layout' ! k)) = node_y n)"
  using assms(1)
proof (cases rule: apply_cases)
  case passthrough
  then show ?thesis by (simp add: jsx_exists)
next
  case (laid_out tr)
  let ?e = "ep (edges layout ! k)"
  let ?P = "positions_of rnd layout tr"
  have ep: "ep = edge_from \<or> ep = edge_to" using assms(3) by simp
  have out: "ep (edges layout' ! k) = newEnd (nodeByIdAfter_of (nodes layout')) ?e"
    by (rule output_end[OF assms(1) laid_out(1) assms(2) ep])
  have ns: "nodes layout' = newNodes_of ?P (nodes layout)"
    by (simp add: laid_out(3) layout_with_def)
  have c0: "length (edges layout') = length (edges layout)"
    by (simp add: laid_out(3) layout_with_def newEdges_of_def)
  have c1: "end_nodeId (ep (edges layout' ! k)) = end_nodeId ?e"
    by (simp add: out newEnd_nodeId)
  have c2: "end_x (ep (edges layout' ! k)) = node_x n \<and> end_y (ep (edges layout' ! k)) = node_y n"
    if "end_nodeId ?e = Some i \<and> i \<noteq> [] \<and>
        nodes layout' = ns1 @ n # ns2 \<and> node_id n = i \<and> i \<notin> node_id ` set ns2"
    for i ns1 n ns2
    unfolding out using that newEnd_snapshot[of ?e i "nodes layout'" ns1 n ns2] by simp
  have c3: "ep (edges layout' ! k) = ?e"
    if "end_nodeId ?e = None \<or> end_nodeId ?e = Some [] \<or>
        (\<exists>i. end_nodeId ?e = Some i \<and> i \<notin> node_id ` set (nodes layout))"
    unfolding out using that newEnd_unchanged[of ?e "nodes layout'"]
    by (simp add: ns newNodes_id_set)
  have c5: "end_x (ep (edges layout' ! k)) = node_x n \<and> end_y (ep (edges layout' ! k)) = node_y n"
    if h: "call_order fuel (jsxNodes_of (nodes layout)) = Some tr' \<and>
        end_nodeId ?e = Some i \<and> i \<noteq> [] \<and> i \<notin> fst ` set tr' \<and>
        nodes layout = ns1 @ n # ns2 \<and> node_id n = i \<and> i \<notin> node_id ` set ns2"
    for tr' i ns1 n ns2
  proof -
    from h laid_out(2) have t: "tr' = tr" by simp
    have "hd (newNodes_of ?P [n]) = n"
      by (rule not_visited_unchanged[of i tr n]) (use h t in simp_all)
    then have "nodes layout' = newNodes_of ?P ns1 @ n # newNodes_of ?P ns2"
      using h by (simp add: ns newNodes_append)
    moreover have "i \<notin> node_id ` set (newNodes_of ?P ns2)"
      using h by (simp add: newNodes_id_set)
    ultimately show ?thesis using c2[of i "newNodes_of ?P ns1" n "newNodes_of ?P ns2"] h by simp
  qed
  have c4: "\<not> list_ex (\<lambda>n. node_kind n = Jsx) (nodes layout) \<longrightarrow> ep (edges layout' ! k) = ?e"
    using laid_out(1) by (simp add: jsx_exists)
  show ?thesis using c0 c1 c2 c3 c4 c5 by blast
qed

theorem endpoint_reconciliation_witness:
  "applyJsxTreeLayout round64 1 mixed_layout = Some mixed_result \<and>
   end_nodeId (edge_to (edges mixed_result ! 0)) = Some ''root'' \<and>
   end_x (edge_to (edges mixed_result ! 0)) = node_x (jsx_node ''root'' None 900 80) \<and>
   end_y (edge_to (edges mixed_result ! 0)) = node_y (jsx_node ''root'' None 900 80)"
proof -
  have k: "0 < length (edges mixed_layout)" by (simp add: mixed_layout_def)
  have e: "edge_to \<in> {edge_from, edge_to}" by simp
  have h: "call_order 1 (jsxNodes_of (nodes mixed_layout)) = Some [(''root'', 0)] \<and>
       list_ex (\<lambda>n. node_kind n = Jsx) (nodes mixed_layout) \<and>
       end_nodeId (edge_to (edges mixed_layout ! 0)) = Some ''root'' \<and> ''root'' \<noteq> [] \<and>
       ''root'' \<in> fst ` set [(''root'', 0::nat)] \<and>
       nodes mixed_result = [state_node ''count'' 300 80] @ jsx_node ''root'' None 900 80 # [] \<and>
       node_id (jsx_node ''root'' None 900 80) = ''root'' \<and>
       ''root'' \<notin> node_id ` set []"
    using mixed_calls mixed_has_jsx
    by (simp add: mixed_layout_def mixed_result_def edge_between_def jsx_node_def)
  from endpoint_reconciliation[OF mixed_run k e] h
  have "end_x (edge_to (edges mixed_result ! 0)) = node_x (jsx_node ''root'' None 900 80) \<and>
        end_y (edge_to (edges mixed_result ! 0)) = node_y (jsx_node ''root'' None 900 80)"
    by blast
  moreover from endpoint_reconciliation[OF mixed_run k e] h
  have "end_nodeId (edge_to (edges mixed_result ! 0)) = Some ''root''" by simp
  ultimately show ?thesis using mixed_run by simp
qed

theorem endpoint_unchanged_counterexample:
  "applyJsxTreeLayout round64 1 mixed_layout = Some mixed_result \<and>
   end_nodeId (edge_from (edges mixed_layout ! 0)) = Some ''count'' \<and>
   node_id (nodes mixed_layout ! 0) = ''count'' \<and>
   nodes mixed_result ! 0 = nodes mixed_layout ! 0 \<and>
   end_x (edge_from (edges mixed_layout ! 0)) = 310 \<and>
   end_x (edge_from (edges mixed_result ! 0)) = 300 \<and>
   applyJsxTreeLayout round64 1 empty_ref_layout = Some empty_ref_result \<and>
   end_nodeId (edge_to (edges empty_ref_layout ! 0)) = Some [] \<and>
   node_id (nodes empty_ref_layout ! 0) = [] \<and>
   node_x (nodes empty_ref_layout ! 0) = 880 \<and>
   node_x (nodes empty_ref_result ! 0) = 900 \<and>
   end_x (edge_to (edges empty_ref_result ! 0)) = 870"
  using mixed_run empty_ref_run
  by (simp add: mixed_layout_def mixed_result_def empty_ref_layout_def empty_ref_result_def
      edge_between_def state_node_def jsx_node_def)

text \<open>
  Claim C9, as amended. On a layout with a jsx node, an endpoint whose node reference is
  not the empty string and matches a node has, in the output, the coordinates of that
  node in the output (of the last node with that id, should ids repeat), whatever the kind
  of the node and whether or not it was repositioned.
\<close>

theorem endpoints_follow_their_nodes:
  assumes "applyJsxTreeLayout rnd fuel layout = Some layout'"
    and "list_ex (\<lambda>n. node_kind n = Jsx) (nodes layout)"
    and "k < length (edges layout)"
    and "ep \<in> {edge_from, edge_to}"
    and "end_nodeId (ep (edges layout ! k)) = Some i" "i \<noteq> []"
    and "nodes layout' = ns1 @ n # ns2" "node_id n = i" "i \<notin> node_id ` set ns2"
  shows "end_x (ep (edges layout' ! k)) = node_x n \<and> end_y (ep (edges layout' ! k)) = node_y n"
proof -
  have j: "jsxNodes_of (nodes layout) \<noteq> []" using assms(2) by (simp add: jsx_exists)
  have ep: "ep = edge_from \<or> ep = edge_to" using assms(4) by simp
  show ?thesis
    unfolding output_end[OF assms(1) j assms(3) ep]
    by (rule newEnd_snapshot[OF assms(5,6,7,8,9)])
qed

theorem endpoints_follow_their_nodes_witness:
  "applyJsxTreeLayout round64 1 mixed_layout = Some mixed_result \<and>
   end_nodeId (edge_from (edges mixed_layout ! 0)) = Some ''count'' \<and>
   end_x (edge_from (edges mixed_layout ! 0)) = 310 \<and>
   end_x (edge_from (edges mixed_result ! 0)) = node_x (state_node ''count'' 300 80) \<and>
   end_y (edge_from (edges mixed_result ! 0)) = node_y (state_node ''count'' 300 80)"
proof -
  have k: "0 < length (edges mixed_layout)" by (simp add: mixed_layout_def)
  have ep: "edge_from \<in> {edge_from, edge_to}" by simp
  have r: "end_nodeId (edge_from (edges mixed_layout ! 0)) = Some ''count''"
    by (simp add: mixed_layout_def edge_between_def)
  have ne: "''count'' \<noteq> []" by simp
  have ns: "nodes mixed_result = [] @ state_node ''count'' 300 80 # [jsx_node ''root'' None 900 80]"
    by (simp add: mixed_result_def)
  have i: "node_id (state_node ''count'' 300 80) = ''count''" by (simp add: state_node_def)
  have l: "''count'' \<notin> node_id ` set [jsx_node ''root'' None 900 80]" by (simp add: jsx_node_def)
  from endpoints_follow_their_nodes[OF mixed_run mixed_has_jsx k ep r ne ns i l] mixed_run r
  show ?thesis by (simp add: mixed_layout_def edge_between_def)
qed

theorem endpoints_follow_their_nodes_counterexample:
  "applyJsxTreeLayout round64 1 plain_layout = Some plain_layout \<and>
   end_nodeId (edge_from (edges plain_layout ! 0)) = Some ''count'' \<and>
   node_id (nodes plain_layout ! 0) = ''count'' \<and>
   node_x (nodes plain_layout ! 0) = 300 \<and>
   end_x (edge_from (edges plain_layout ! 0)) = 310 \<and>
   applyJsxTreeLayout round64 1 empty_ref_layout = Some empty_ref_result \<and>
   end_nodeId (edge_to (edges empty_ref_result ! 0)) = Some [] \<and>
   node_id (nodes empty_ref_result ! 0) = [] \<and>
   node_x (nodes empty_ref_result ! 0) = 900 \<and>
   end_x (edge_to (edges empty_ref_result ! 0)) = 870"
  using empty_ref_run
  by (simp add: applyJsxTreeLayout_def jsxNodes_of_def plain_layout_def empty_ref_result_def
      edge_between_def state_node_def jsx_node_def)

lemma newNodes_kind: "n' \<in> set (newNodes_of P ns) \<Longrightarrow> \<exists>n\<in>set ns. node_kind n = node_kind n' \<and> node_id n = node_id n'"
  by (auto simp: newNodes_of_def split: option.splits)

lemma newNodes_positioned:
  assumes "n' \<in> set (newNodes_of P ns)" "map_of P (node_id n') = Some pos"
  shows "node_x n' = fst pos \<and> node_y n' = snd pos"
proof -
  from assms(1) obtain n where n: "n \<in> set ns"
    "n' = (case map_get P (node_id n) of None \<Rightarrow> n
           | Some pos \<Rightarrow> n\<lparr>node_x := fst pos, node_y := snd pos\<rparr>)"
    by (auto simp: newNodes_of_def)
  have "node_id n' = node_id n" using n(2) by (simp split: option.splits)
  with assms(2) n(2) show ?thesis by (simp add: map_get_def)
qed

lemma position_y_lower: "80 \<le> position_y r"
  by (simp add: position_y_def baseY_def rowGapY_def)

lemma position_x_nonneg:
  assumes s: "\<forall>a. 0 \<le> a \<longrightarrow> 0 \<le> rnd a"
    and h: "rnd (rnd (real D * 160) / 2) \<le> c"
  shows "0 \<le> position_x rnd c D d"
proof -
  have "0 \<le> rnd (c - rnd (rnd (real D * 160) / 2))" using s h by simp
  moreover have "0 \<le> rnd (real d * 160)" using s by simp
  ultimately have "0 \<le> rnd (c - rnd (rnd (real D * 160) / 2)) + rnd (real d * 160)" by simp
  then show ?thesis unfolding position_x_def depthGapX_def using s by blast
qed

text \<open>
  Claim C4, as amended. In a run that returns, every jsx node of the output whose box
  has a non-negative width has \<open>x \<le> width\<close>, and one whose box has a non-negative height
  has \<open>y \<le> height\<close>. Every node with a visited id has \<open>y \<ge> 80\<close>, and it has
  \<open>x \<ge> 0\<close> when \<open>colX.jsx \<ge> 80 * D\<close>, \<open>D\<close> being \<^verbatim>\<open>maxDepth\<close>: more precisely, when
  the rounding sends no non-negative number below 0 and \<open>colX.jsx\<close> is at least the computed
  \<open>(D * 160) / 2\<close>, which is \<open>80 * D\<close> when the product and its half are not rounded.
\<close>

theorem jsx_nodes_within_canvas:
  assumes "applyJsxTreeLayout rnd fuel layout = Some layout'"
    and "n \<in> set (nodes layout')" and "node_kind n = Jsx"
  shows "(0 \<le> node_width n \<longrightarrow> node_x n \<le> width layout') \<and>
    (0 \<le> node_height n \<longrightarrow> node_y n \<le> height layout') \<and>
    (\<forall>tr dst.
       call_order fuel (jsxNodes_of (nodes layout)) = Some tr \<and>
       depth_pass fuel (jsxNodes_of (nodes layout)) = Some dst \<and>
       node_id n \<in> fst ` set tr \<longrightarrow>
       80 \<le> node_y n \<and>
       ((\<forall>a. 0 \<le> a \<longrightarrow> 0 \<le> rnd a) \<and>
        rnd (rnd (real (maxDepth_of (fst dst)) * 160) / 2) \<le> col_jsx (colX layout) \<longrightarrow>
        0 \<le> node_x n) \<and>
       ((\<forall>a. 0 \<le> a \<longrightarrow> 0 \<le> rnd a) \<and>
        rnd (real (maxDepth_of (fst dst)) * 160) = real (maxDepth_of (fst dst)) * 160 \<and>
        rnd (real (maxDepth_of (fst dst)) * 160 / 2) = real (maxDepth_of (fst dst)) * 160 / 2 \<and>
        80 * real (maxDepth_of (fst dst)) \<le> col_jsx (colX layout) \<longrightarrow> 0 \<le> node_x n))"
  using assms(1)
proof (cases rule: apply_cases)
  case passthrough
  from assms(2,3) passthrough(2) have "n \<in> set (jsxNodes_of (nodes layout))"
    by (simp add: jsxNodes_of_def)
  with passthrough(1) show ?thesis by simp
next
  case (laid_out tr)
  let ?P = "positions_of rnd layout tr"
  let ?dst = "fold dfs_step tr ([], [])"
  let ?D = "maxDepth_of (fst ?dst)"
  let ?c = "col_jsx (colX layout)"
  have n: "n \<in> set (newNodes_of ?P (nodes layout))"
    using assms(2) by (simp add: laid_out(3) layout_with_def)
  have "node_x n + node_width n / 2 + 40 \<le> width layout'"
    unfolding laid_out(3) layout_with_def using maxX_upper[OF n] by simp
  then have x: "0 \<le> node_width n \<longrightarrow> node_x n \<le> width layout'" by simp
  have "node_y n + node_height n / 2 + 40 \<le> height layout'"
    unfolding laid_out(3) layout_with_def using maxY_upper[OF n] by simp
  then have y: "0 \<le> node_height n \<longrightarrow> node_y n \<le> height layout'" by simp
  have low: "80 \<le> node_y n \<and>
       ((\<forall>a. 0 \<le> a \<longrightarrow> 0 \<le> rnd a) \<and>
        rnd (rnd (real (maxDepth_of (fst dst)) * 160) / 2) \<le> col_jsx (colX layout) \<longrightarrow>
        0 \<le> node_x n) \<and>
       ((\<forall>a. 0 \<le> a \<longrightarrow> 0 \<le> rnd a) \<and>
        rnd (real (maxDepth_of (fst dst)) * 160) = real (maxDepth_of (fst dst)) * 160 \<and>
        rnd (real (maxDepth_of (fst dst)) * 160 / 2) = real (maxDepth_of (fst dst)) * 160 / 2 \<and>
        80 * real (maxDepth_of (fst dst)) \<le> col_jsx (colX layout) \<longrightarrow> 0 \<le> node_x n)"
    if h: "call_order fuel (jsxNodes_of (nodes layout)) = Some tr' \<and>
       depth_pass fuel (jsxNodes_of (nodes layout)) = Some dst \<and>
       node_id n \<in> fst ` set tr'" for tr' dst
  proof -
    from h laid_out(2) have t: "tr' = tr" by simp
    from h have d: "dst = ?dst" by (auto simp: depth_pass_calls laid_out(2))
    have "dom (map_of ?P) = fst ` set tr" unfolding positions_of_def by (rule positions_dom)
    with h t have "node_id n \<in> dom (map_of ?P)" by simp
    then obtain pos where pos: "map_of ?P (node_id n) = Some pos" by (auto simp: dom_def)
    from positions_ran[OF pos[unfolded positions_of_def]] obtain e r where
      "pos = (position_x rnd ?c ?D e, position_y r)"
      by blast
    with newNodes_positioned[OF n pos]
    have nx: "node_x n = position_x rnd ?c ?D e"
      and ny: "node_y n = position_y r" by simp_all
    have a: "80 \<le> node_y n" unfolding ny by (rule position_y_lower)
    have b: "0 \<le> node_x n"
      if "(\<forall>a. 0 \<le> a \<longrightarrow> 0 \<le> rnd a) \<and> rnd (rnd (real ?D * 160) / 2) \<le> ?c"
      unfolding nx using that by (intro position_x_nonneg) simp_all
    have c: "0 \<le> node_x n"
      if g: "(\<forall>a. 0 \<le> a \<longrightarrow> 0 \<le> rnd a) \<and> rnd (real ?D * 160) = real ?D * 160 \<and>
          rnd (real ?D * 160 / 2) = real ?D * 160 / 2 \<and> 80 * real ?D \<le> ?c"
    proof -
      from g have "rnd (rnd (real ?D * 160) / 2) = real ?D * 160 / 2" by simp
      with g have "rnd (rnd (real ?D * 160) / 2) \<le> ?c" by simp
      with g b show ?thesis by blast
    qed
    show ?thesis unfolding d using a b c by blast
  qed
  show ?thesis using x y low by blast
qed

theorem jsx_nodes_within_canvas_counterexample:
  "map_option
     (\<lambda>out. (node_kind (nodes out ! 0), node_x (nodes out ! 0), 0 \<le> node_x (nodes out ! 0)))
     (applyJsxTreeLayout round64 13 (chain_layout 13 900)) = Some (Jsx, - 60, False)"
  by code_simp

theorem jsx_nodes_within_canvas_witness:
  "applyJsxTreeLayout round64 2 scenario = Some scenario_result \<and>
   jsx_node ''root'' None 320 80 \<in> set (nodes scenario_result) \<and>
   node_x (jsx_node ''root'' None 320 80) \<le> width scenario_result \<and>
   node_y (jsx_node ''root'' None 320 80) \<le> height scenario_result \<and>
   80 \<le> node_y (jsx_node ''root'' None 320 80) \<and>
   0 \<le> node_x (jsx_node ''root'' None 320 80)"
proof -
  let ?n = "jsx_node ''root'' None 320 80"
  have n: "?n \<in> set (nodes scenario_result)" by (simp add: scenario_result_def)
  have k: "node_kind ?n = Jsx" by (simp add: jsx_node_def)
  have c: "call_order 2 (jsxNodes_of (nodes scenario)) =
           Some [(''root'', 0), (''child1'', 1), (''child2'', 1)]" by code_simp
  have d: "depth_pass 2 (jsxNodes_of (nodes scenario)) =
           Some ([(''root'', 0), (''child1'', 1), (''child2'', 1)], [(0, 1), (1, 2)])"
    by code_simp
  have m: "maxDepth_of (fst ([(''root'', 0), (''child1'', 1), (''child2'', 1)], [(0::nat, 1::nat), (1, 2)])) = 1"
    by code_simp
  have i: "node_id ?n \<in> fst ` set [(''root'', 0::nat), (''child1'', 1), (''child2'', 1)]"
    by (simp add: jsx_node_def)
  have s: "0 \<le> node_width ?n" "0 \<le> node_height ?n"
    by (simp_all add: jsx_node_def)
  have g: "\<forall>a. 0 \<le> a \<longrightarrow> 0 \<le> round64 a" by (simp add: round64_nonneg)
  have "round64 (round64 (real 1 * 160) / 2) = 80" by code_simp
  then have r: "round64 (round64 (real 1 * 160) / 2) \<le> col_jsx (colX scenario)"
    by (simp add: scenario_def columns_def)
  from jsx_nodes_within_canvas[OF scenario_run n k] c d i s m g r
  have "node_x ?n \<le> width scenario_result \<and> node_y ?n \<le> height scenario_result \<and>
        80 \<le> node_y ?n \<and> 0 \<le> node_x ?n"
    by (metis fst_conv)
  with scenario_run n show ?thesis by simp
qed

lemma newNodes_jsx: "jsxNodes_of (newNodes_of P ns) = newNodes_of P (jsxNodes_of ns)"
  unfolding jsxNodes_of_def newNodes_of_def
  by (induction ns) (auto split: option.splits)

lemma newNodes_meta: "map meta_jsxParentId (newNodes_of P ns) = map meta_jsxParentId ns"
  by (simp add: newNodes_of_def meta_jsxParentId_def split: option.splits)

lemma parentIdMap_keys_values:
  "parentIdMap_of ns =
   fold (\<lambda>kv m. map_set (fst kv) (snd kv) m) (map (\<lambda>n. (node_id n, meta_jsxParentId n)) ns) []"
  by (simp add: parentIdMap_of_def fold_map comp_def)

lemma newNodes_parentIdMap: "parentIdMap_of (newNodes_of P ns) = parentIdMap_of ns"
proof -
  have "map (\<lambda>n. (node_id n, meta_jsxParentId n)) (newNodes_of P ns) =
        map (\<lambda>n. (node_id n, meta_jsxParentId n)) ns"
    using newNodes_ids[of P ns] newNodes_meta[of P ns]
    by (simp add: newNodes_of_def meta_jsxParentId_def split: option.splits)
  then show ?thesis by (simp only: parentIdMap_keys_values)
qed

lemma root_ids:
  "map node_id (rootJsxNodes_of ns) =
   filter (\<lambda>i. case parent_get (parentIdMap_of ns) i of
                  None \<Rightarrow> True
                | Some p \<Rightarrow> p = [] \<or> p \<notin> node_id ` set ns) (map node_id ns)"
  by (simp add: rootJsxNodes_of_def is_root_iff filter_map comp_def)

lemma newNodes_call_order: "call_order fuel (newNodes_of P ns) = call_order fuel ns"
  unfolding call_order_def root_ids newNodes_parentIdMap newNodes_ids newNodes_id_set ..

lemma newNodes_idem: "newNodes_of P (newNodes_of P ns) = newNodes_of P ns"
  by (simp add: newNodes_of_def map_get_def split: option.splits)

lemma newEnd_idem: "newEnd m (newEnd m e) = newEnd m e"
  by (simp add: newEnd_def split: option.splits)

lemma newEdges_idem: "newEdges_of m (newEdges_of m es) = newEdges_of m es"
  by (simp add: newEdges_of_def newEnd_idem)

lemma maxX_idem: "maxX_of (maxX_of w ns) ns = maxX_of w ns"
  by (rule maxX_fixed) (simp add: maxX_upper)

lemma maxY_idem: "maxY_of (maxY_of h ns) ns = maxY_of h ns"
  by (rule maxY_fixed) (simp add: maxY_upper)

lemma layout_with_idem:
  "layout_with (layout_with layout P) P = layout_with layout P"
  by (simp add: layout_with_def newNodes_idem newEdges_idem maxX_idem maxY_idem)

lemma positions_of_layout_with:
  "positions_of rnd (layout_with layout P) tr = positions_of rnd layout tr"
  by (simp add: positions_of_def layout_with_def)

text \<open>
  Claim C6. The transformer is idempotent: the output of a run, given to the transformer
  again, is returned as it is (the parent links are those of the input, which the
  transformer does not change), so node coordinates, endpoint coordinates, width and
  height are identical.
\<close>

theorem transform_idempotent:
  "applyJsxTreeLayout rnd fuel layout = Some layout' \<Longrightarrow>
   applyJsxTreeLayout rnd fuel layout' = Some layout'"
proof (erule apply_cases)
  assume "layout' = layout" "jsxNodes_of (nodes layout) = []"
  then show ?thesis by (simp add: apply_eq)
next
  fix tr
  assume j: "jsxNodes_of (nodes layout) \<noteq> []"
    and c: "call_order fuel (jsxNodes_of (nodes layout)) = Some tr"
    and o: "layout' = layout_with layout (positions_of rnd layout tr)"
  let ?P = "positions_of rnd layout tr"
  have n: "jsxNodes_of (nodes layout') = newNodes_of ?P (jsxNodes_of (nodes layout))"
    by (simp add: o layout_with_def newNodes_jsx)
  have "jsxNodes_of (nodes layout') \<noteq> []"
    using j newNodes_length[of ?P "jsxNodes_of (nodes layout)"] unfolding n by auto
  moreover have "call_order fuel (jsxNodes_of (nodes layout')) = Some tr"
    unfolding n newNodes_call_order by (rule c)
  moreover have "layout_with layout' (positions_of rnd layout' tr) = layout'"
    unfolding o positions_of_layout_with layout_with_idem ..
  ultimately show ?thesis by (simp add: apply_eq)
qed

theorem transform_idempotent_witness:
  "applyJsxTreeLayout round64 1 mixed_layout = Some mixed_result \<and>
   applyJsxTreeLayout round64 1 mixed_result = Some mixed_result"
  using transform_idempotent[OF mixed_run] mixed_run by simp

section \<open>Roots on a cycle of parent ids\<close>

lemma collect_None: "c \<in> set cs \<Longrightarrow> g c = None \<Longrightarrow> collect cs g = None"
  by (induction cs) (auto split: option.splits)

lemma cycle_up:
  assumes "anc pm k i = Some i" "anc pm d i = Some r"
  shows "anc pm k r = Some r"
proof -
  have "anc pm (k + d) i = Some r" using assms by (simp add: anc_add)
  moreover have "anc pm (d + k) i = anc pm k r" using assms(2) by (simp add: anc_add)
  ultimately show ?thesis by (simp add: add.commute)
qed

lemma cycle_child:
  assumes "keys_in ids pm" "0 < k" "anc pm k j = Some j"
  shows "\<exists>c\<in>set ids. parent_get pm c = Some j \<and> anc pm k c = Some c"
proof -
  from assms(2) obtain k' where k: "k = Suc k'" by (cases k) simp_all
  from anc_prefix_Some[OF assms(3), of k'] k obtain c where
    c: "anc pm k' j = Some c" "anc pm 1 c = Some j" by auto
  from c(2) have p: "parent_get pm c = Some j" by (simp split: option.splits)
  have "anc pm (Suc k') c = anc pm k' j" using p by simp
  with c(1) k have "anc pm k c = Some c" by simp
  moreover from parent_get_in_ids[OF assms(1) p] have "c \<in> set ids" .
  ultimately show ?thesis using p by blast
qed

lemma cycle_calls_none:
  assumes "keys_in ids pm" "0 < k"
  shows "anc pm k j = Some j \<Longrightarrow> calls fuel ids pm j d = None"
proof (induction fuel arbitrary: j d)
  case 0
  then show ?case by simp
next
  case (Suc fuel)
  from cycle_child[OF assms Suc.prems] obtain c where
    c: "c \<in> set ids" "parent_get pm c = Some j" "anc pm k c = Some c" by blast
  have "collect (filter (\<lambda>c. parent_get pm c = Some j) ids)
          (\<lambda>c. calls fuel ids pm c (d + 1)) = None"
    by (rule collect_None[of c]) (use c Suc.IH in simp_all)
  then show ?case by simp
qed

lemma depth_bound_acyclic:
  assumes "keys_in ids pm" "r \<in> set ids" "\<forall>k. 0 < k \<longrightarrow> anc pm k r \<noteq> Some r"
    "anc pm d i = Some r"
  shows "d < length ids"
proof -
  let ?g = "\<lambda>k. the (anc pm k i)"
  have inj: "inj_on ?g {0..d}"
  proof (rule inj_onI)
    fix a b assume ab: "a \<in> {0..d}" "b \<in> {0..d}" "?g a = ?g b"
    have aux: "a = b" if le: "a \<le> b" "b \<le> d" and eq: "?g a = ?g b" for a b
    proof (rule ccontr)
      assume ne: "a \<noteq> b"
      from anc_prefix_Some[OF assms(4) le(2)] obtain m where
        m: "anc pm b i = Some m" "anc pm (d - b) m = Some r" by blast
      from anc_prefix_Some[OF m(1) le(1)] obtain m' where
        m': "anc pm a i = Some m'" "anc pm (b - a) m' = Some m" by blast
      from m(1) m'(1) eq have "m' = m" by simp
      with m'(2) have "anc pm (b - a) m = Some m" by simp
      from cycle_up[OF this m(2)] have "anc pm (b - a) r = Some r" .
      moreover have "0 < b - a" using le(1) ne by simp
      ultimately show False using assms(3) by blast
    qed
    show "a = b"
    proof (cases "a \<le> b")
      case True
      then show ?thesis using aux[of a b] ab by simp
    next
      case False
      then show ?thesis using aux[of b a] ab by simp
    qed
  qed
  have sub: "?g ` {0..d} \<subseteq> set ids"
  proof
    fix x assume "x \<in> ?g ` {0..d}"
    then obtain k where k: "k \<le> d" "x = ?g k" by auto
    from anc_prefix_Some[OF assms(4) k(1)] obtain m where m: "anc pm k i = Some m" by blast
    from anc_chain_in_ids[OF assms(1,4,2) k(1) m] k(2) m show "x \<in> set ids" by simp
  qed
  have "card {0..d} = card (?g ` {0..d})" using inj by (simp add: card_image)
  also have "\<dots> \<le> card (set ids)" using sub by (simp add: card_mono)
  also have "\<dots> \<le> length ids" by (rule card_length)
  finally show ?thesis by simp
qed

lemma calls_returns_acyclic:
  assumes "keys_in ids pm" "r \<in> set ids" "\<forall>k. 0 < k \<longrightarrow> anc pm k r \<noteq> Some r"
  shows "anc pm d0 j = Some r \<Longrightarrow> length ids \<le> fuel + d0 \<Longrightarrow> calls fuel ids pm j d0 \<noteq> None"
proof (induction fuel arbitrary: j d0)
  case 0
  from depth_bound_acyclic[OF assms 0(1)] 0(2) show ?case by simp
next
  case (Suc fuel)
  have "collect (filter (\<lambda>c. parent_get pm c = Some j) ids)
          (\<lambda>c. calls fuel ids pm c (d0 + 1)) \<noteq> None"
  proof (rule collect_returns)
    fix c assume "c \<in> set (filter (\<lambda>c. parent_get pm c = Some j) ids)"
    then have "parent_get pm c = Some j" by simp
    then have "anc pm (d0 + 1) c = Some r" using Suc.prems(1) by simp
    from Suc.IH[OF this] Suc.prems(2)
    show "calls fuel ids pm c (d0 + 1) \<noteq> None" by simp
  qed
  then show ?case by (auto split: option.splits)
qed

lemma root_in_jsx: "r \<in> set (rootJsxNodes_of ns) \<Longrightarrow> node_id r \<in> set (map node_id ns)"
  by (auto simp: rootJsxNodes_of_def)

lemma call_order_cyclic_root:
  assumes "r \<in> set (rootJsxNodes_of ns)" "0 < k"
    "anc (parentIdMap_of ns) k (node_id r) = Some (node_id r)"
  shows "call_order fuel ns = None"
  unfolding call_order_def
proof (rule collect_None[of "node_id r"])
  show "node_id r \<in> set (map node_id (rootJsxNodes_of ns))" using assms(1) by simp
  show "calls fuel (map node_id ns) (parentIdMap_of ns) (node_id r) 0 = None"
    by (rule cycle_calls_none[OF parentIdMap_keys assms(2,3)])
qed

lemma call_order_acyclic_roots:
  assumes "\<forall>r\<in>set (rootJsxNodes_of ns). \<forall>k. 0 < k \<longrightarrow>
             anc (parentIdMap_of ns) k (node_id r) \<noteq> Some (node_id r)"
    and "length ns \<le> fuel"
  shows "call_order fuel ns \<noteq> None"
  unfolding call_order_def
proof (rule collect_returns)
  fix i assume "i \<in> set (map node_id (rootJsxNodes_of ns))"
  then obtain r where r: "r \<in> set (rootJsxNodes_of ns)" "i = node_id r" by auto
  have a: "\<forall>k. 0 < k \<longrightarrow> anc (parentIdMap_of ns) k i \<noteq> Some i" using assms(1) r by blast
  have "i \<in> set (map node_id ns)" using root_in_jsx[OF r(1)] r(2) by simp
  from calls_returns_acyclic[OF parentIdMap_keys this a, of 0 i fuel] assms(2)
  show "calls fuel (map node_id ns) (parentIdMap_of ns) i 0 \<noteq> None" by simp
qed

text \<open>The run returns exactly when no root lies on a cycle of parent ids.\<close>

lemma apply_returns_iff:
  "(\<exists>fuel out. applyJsxTreeLayout rnd fuel layout = Some out) \<longleftrightarrow>
   \<not> (\<exists>r\<in>set (rootJsxNodes_of (jsxNodes_of (nodes layout))). \<exists>k. 0 < k \<and>
        anc (parentIdMap_of (jsxNodes_of (nodes layout))) k (node_id r) = Some (node_id r))"
proof
  assume "\<exists>fuel out. applyJsxTreeLayout rnd fuel layout = Some out"
  then obtain fuel out where run: "applyJsxTreeLayout rnd fuel layout = Some out" by blast
  show "\<not> (\<exists>r\<in>set (rootJsxNodes_of (jsxNodes_of (nodes layout))). \<exists>k. 0 < k \<and>
        anc (parentIdMap_of (jsxNodes_of (nodes layout))) k (node_id r) = Some (node_id r))"
  proof
    assume "\<exists>r\<in>set (rootJsxNodes_of (jsxNodes_of (nodes layout))). \<exists>k. 0 < k \<and>
        anc (parentIdMap_of (jsxNodes_of (nodes layout))) k (node_id r) = Some (node_id r)"
    then obtain r k where r: "r \<in> set (rootJsxNodes_of (jsxNodes_of (nodes layout)))" "0 < k"
      "anc (parentIdMap_of (jsxNodes_of (nodes layout))) k (node_id r) = Some (node_id r)"
      by blast
    from r(1) have "jsxNodes_of (nodes layout) \<noteq> []" by (auto simp: rootJsxNodes_of_def)
    with run call_order_cyclic_root[OF r, of fuel] show False by (simp add: apply_eq)
  qed
next
  assume "\<not> (\<exists>r\<in>set (rootJsxNodes_of (jsxNodes_of (nodes layout))). \<exists>k. 0 < k \<and>
        anc (parentIdMap_of (jsxNodes_of (nodes layout))) k (node_id r) = Some (node_id r))"
  then have "\<forall>r\<in>set (rootJsxNodes_of (jsxNodes_of (nodes layout))). \<forall>k. 0 < k \<longrightarrow>
        anc (parentIdMap_of (jsxNodes_of (nodes layout))) k (node_id r) \<noteq> Some (node_id r)"
    by blast
  from call_order_acyclic_roots[OF this, of "length (jsxNodes_of (nodes layout))"]
  show "\<exists>fuel out. applyJsxTreeLayout rnd fuel layout = Some out"
    by (auto simp: apply_eq)
qed

lemma apply_returns_enough:
  assumes "applyJsxTreeLayout rnd fuel0 layout = Some out0"
    and "length (jsxNodes_of (nodes layout)) \<le> fuel"
  shows "\<exists>out. applyJsxTreeLayout rnd fuel layout = Some out"
proof -
  from assms(1) have "\<exists>fuel out. applyJsxTreeLayout rnd fuel layout = Some out" by blast
  then have "\<forall>r\<in>set (rootJsxNodes_of (jsxNodes_of (nodes layout))). \<forall>k. 0 < k \<longrightarrow>
        anc (parentIdMap_of (jsxNodes_of (nodes layout))) k (node_id r) \<noteq> Some (node_id r)"
    unfolding apply_returns_iff by blast
  from call_order_acyclic_roots[OF this assms(2)] show ?thesis by (auto simp: apply_eq)
qed

lemma cyclic_root_empty_parent:
  assumes "r \<in> set (rootJsxNodes_of ns)" "0 < k"
    "anc (parentIdMap_of ns) k (node_id r) = Some (node_id r)"
  shows "empty_parent_resolves ns"
proof (rule ccontr)
  assume "\<not> empty_parent_resolves ns"
  from root_good[OF this assms(1)]
  have g: "good_root (map node_id ns) (parentIdMap_of ns) (node_id r)" .
  from root_no_anc[OF parentIdMap_keys g assms(3) root_in_jsx[OF assms(1)]] assms(2)
  show False by simp
qed

lemma visited_not_on_cycle:
  assumes "call_order fuel ns = Some tr" "i \<in> fst ` set tr" "0 < k"
  shows "anc (parentIdMap_of ns) k i \<noteq> Some i"
proof
  assume c: "anc (parentIdMap_of ns) k i = Some i"
  from assms(2) obtain d where "(i, d) \<in> set tr" by force
  from visited_from_root[OF assms(1) this] obtain r where
    r: "r \<in> set (rootJsxNodes_of ns)" "anc (parentIdMap_of ns) d i = Some (node_id r)" by blast
  from cycle_up[OF c r(2)] have "anc (parentIdMap_of ns) k (node_id r) = Some (node_id r)" .
  from call_order_cyclic_root[OF r(1) assms(3) this, of fuel] assms(1) show False by simp
qed

section \<open>Ids that are visited more than once\<close>


lemma calls_children:
  "calls fuel ids pm j d0 = Some tr \<Longrightarrow> (p, d) \<in> set tr \<Longrightarrow> parent_get pm i = Some p \<Longrightarrow>
   i \<in> set ids \<Longrightarrow> (i, d + 1) \<in> set tr"
proof (induction fuel arbitrary: j d0 tr)
  case 0
  then show ?case by simp
next
  case (Suc fuel)
  let ?cs = "filter (\<lambda>c. parent_get pm c = Some j) ids"
  from Suc.prems(1) obtain tr' where
    tr': "collect ?cs (\<lambda>c. calls fuel ids pm c (d0 + 1)) = Some tr'" "tr = (j, d0) # tr'"
    by (auto split: option.splits)
  show ?case
  proof (cases "(p, d) = (j, d0)")
    case True
    with Suc.prems(3,4) have "i \<in> set ?cs" by simp
    from collect_each[OF tr'(1) this] obtain t where
      t: "calls fuel ids pm i (d0 + 1) = Some t" "set t \<subseteq> set tr'" by blast
    from calls_head[OF t(1)] t(2) True tr'(2) show ?thesis by auto
  next
    case False
    with Suc.prems(2) tr'(2) have "(p, d) \<in> set tr'" by auto
    from collect_set[OF tr'(1) this] obtain c t where
      c: "c \<in> set ?cs" "calls fuel ids pm c (d0 + 1) = Some t" "(p, d) \<in> set t" by blast
    from Suc.IH[OF c(2,3) Suc.prems(3,4)] have "(i, d + 1) \<in> set t" .
    moreover from collect_each[OF tr'(1) c(1)] c(2) have "set t \<subseteq> set tr'" by auto
    ultimately show ?thesis using tr'(2) by auto
  qed
qed

lemma call_order_children:
  assumes "call_order fuel ns = Some tr" "(p, d) \<in> set tr"
    "parent_get (parentIdMap_of ns) i = Some p"
  shows "(i, d + 1) \<in> set tr"
proof -
  from collect_set[OF assms(1)[unfolded call_order_def] assms(2)] obtain r t where
    r: "r \<in> set (map node_id (rootJsxNodes_of ns))"
    "calls fuel (map node_id ns) (parentIdMap_of ns) r 0 = Some t" "(p, d) \<in> set t" by blast
  have "i \<in> set (map node_id ns)"
    by (rule parent_get_in_ids[OF parentIdMap_keys assms(3)])
  from calls_children[OF r(2,3) assms(3) this] have "(i, d + 1) \<in> set t" .
  moreover from collect_each[OF assms(1)[unfolded call_order_def] r(1)] r(2)
  have "set t \<subseteq> set tr" by auto
  ultimately show ?thesis by auto
qed

lemma call_order_descendants:
  assumes "call_order fuel ns = Some tr"
  shows "(p, d) \<in> set tr \<Longrightarrow> anc (parentIdMap_of ns) k i = Some p \<Longrightarrow> (i, d + k) \<in> set tr"
proof (induction k arbitrary: p d)
  case 0
  then show ?case by simp
next
  case (Suc k)
  from anc_prefix_Some[OF Suc.prems(2), of k] obtain c where
    c: "anc (parentIdMap_of ns) k i = Some c" "anc (parentIdMap_of ns) 1 c = Some p" by auto
  from c(2) have pc: "parent_get (parentIdMap_of ns) c = Some p" by (simp split: option.splits)
  from call_order_children[OF assms Suc.prems(1) pc] have "(c, d + 1) \<in> set tr" .
  from Suc.IH[OF this c(1)] show ?case by simp
qed

text \<open>
  Ids of roots of which none has another, or itself, among its proper ancestors: the
  depth of an id below them is determined.
\<close>

lemma depth_unique_apart:
  assumes ap: "\<forall>r\<in>R. \<forall>r'\<in>R. \<forall>k. 0 < k \<longrightarrow> anc pm k r \<noteq> Some r'"
    and "anc pm d i = Some r" "r \<in> R" "anc pm d' i = Some r'" "r' \<in> R"
  shows "d = d'"
proof -
  have aux: "d = d'"
    if h: "anc pm d i = Some r" "r \<in> R" "anc pm d' i = Some r'" "r' \<in> R" "d \<le> d'"
    for d d' r r'
  proof (rule ccontr)
    assume "d \<noteq> d'"
    with h(5) have lt: "0 < d' - d" by simp
    from anc_prefix_Some[OF h(3,5)] h(1) have "anc pm (d' - d) r = Some r'" by auto
    with ap h(2,4) lt show False by blast
  qed
  show ?thesis
  proof (cases "d \<le> d'")
    case True
    then show ?thesis using aux[OF assms(2-5)] by simp
  next
    case False
    then have "d' \<le> d" by simp
    then show ?thesis using aux[OF assms(4,5,2,3)] by simp
  qed
qed

lemma collect_calls_distinct_apart:
  assumes ap: "\<forall>r\<in>R. \<forall>r'\<in>R. \<forall>k. 0 < k \<longrightarrow> anc pm k r \<noteq> Some r'"
    and "distinct cs"
    and roots: "\<And>c. c \<in> set cs \<Longrightarrow> \<exists>r\<in>R. anc pm d0 c = Some r"
    and each: "\<And>c t. c \<in> set cs \<Longrightarrow> calls fuel ids pm c d0 = Some t \<Longrightarrow> distinct (map fst t)"
    and "collect cs (\<lambda>c. calls fuel ids pm c d0) = Some tr"
  shows "distinct (map fst tr)"
proof (rule collect_distinct[OF assms(2) assms(5)])
  fix c t assume "c \<in> set cs" "calls fuel ids pm c d0 = Some t"
  then show "distinct (map fst t)" by (rule each)
next
  fix c1 c2 t1 t2 i
  assume c: "c1 \<in> set cs" "c2 \<in> set cs"
    and t: "calls fuel ids pm c1 d0 = Some t1" "calls fuel ids pm c2 d0 = Some t2"
    and i: "i \<in> fst ` set t1" "i \<in> fst ` set t2"
  from i obtain e1 e2 where e: "(i, e1) \<in> set t1" "(i, e2) \<in> set t2" by force
  from roots[OF c(1)] obtain r1 where r1: "r1 \<in> R" "anc pm d0 c1 = Some r1" by blast
  from roots[OF c(2)] obtain r2 where r2: "r2 \<in> R" "anc pm d0 c2 = Some r2" by blast
  have a1: "anc pm e1 i = Some r1" by (rule calls_root[OF t(1) e(1) r1(2)])
  have a2: "anc pm e2 i = Some r2" by (rule calls_root[OF t(2) e(2) r2(2)])
  have "e1 = e2" by (rule depth_unique_apart[OF ap a1 r1(1) a2 r2(1)])
  moreover from calls_anc[OF t(1) e(1)] have "anc pm (e1 - d0) i = Some c1" by simp
  moreover from calls_anc[OF t(2) e(2)] have "anc pm (e2 - d0) i = Some c2" by simp
  ultimately show "c1 = c2" by simp
qed

lemma calls_distinct_apart:
  assumes ap: "\<forall>r\<in>R. \<forall>r'\<in>R. \<forall>k. 0 < k \<longrightarrow> anc pm k r \<noteq> Some r'"
    and "distinct ids" and "r \<in> R"
  shows "anc pm d0 j = Some r \<Longrightarrow> calls fuel ids pm j d0 = Some tr \<Longrightarrow> distinct (map fst tr)"
proof (induction fuel arbitrary: j d0 tr)
  case 0
  then show ?case by simp
next
  case (Suc fuel)
  let ?cs = "filter (\<lambda>c. parent_get pm c = Some j) ids"
  from Suc.prems(2) obtain tr' where
    tr': "collect ?cs (\<lambda>c. calls fuel ids pm c (d0 + 1)) = Some tr'" "tr = (j, d0) # tr'"
    by (auto split: option.splits)
  have child_root: "anc pm (d0 + 1) c = Some r" if "c \<in> set ?cs" for c
    using that Suc.prems(1) by simp
  have "distinct (map fst tr')"
  proof (rule collect_calls_distinct_apart[OF ap _ _ _ tr'(1)])
    show "distinct ?cs" using assms(2) by simp
  next
    fix c assume "c \<in> set ?cs"
    then show "\<exists>r\<in>R. anc pm (d0 + 1) c = Some r"
      using child_root assms(3) by blast
  next
    fix c t assume "c \<in> set ?cs" "calls fuel ids pm c (d0 + 1) = Some t"
    then show "distinct (map fst t)" using Suc.IH[OF child_root] by blast
  qed
  moreover have "j \<notin> fst ` set tr'"
  proof
    assume "j \<in> fst ` set tr'"
    then obtain d where d: "(j, d) \<in> set tr'" by force
    from collect_set[OF tr'(1) d] obtain c t where
      c: "c \<in> set ?cs" "calls fuel ids pm c (d0 + 1) = Some t" "(j, d) \<in> set t" by blast
    from calls_anc[OF c(2,3)] have le: "d0 + 1 \<le> d" by simp
    have "anc pm d j = Some r" by (rule calls_root[OF c(2,3) child_root[OF c(1)]])
    from depth_unique_apart[OF ap this assms(3) Suc.prems(1) assms(3)] le
    show False by simp
  qed
  ultimately show ?case using tr'(2) by simp
qed

text \<open>
  With unique ids, no id is visited twice exactly when no root has a root among its
  proper ancestors.
\<close>

lemma call_order_distinct_iff:
  assumes "distinct (map node_id ns)" "call_order fuel ns = Some tr"
  shows "distinct (map fst tr) \<longleftrightarrow>
    \<not> (\<exists>r\<in>set (rootJsxNodes_of ns). \<exists>r'\<in>set (rootJsxNodes_of ns). \<exists>k. 0 < k \<and>
         anc (parentIdMap_of ns) k (node_id r) = Some (node_id r'))"
proof
  assume dis: "distinct (map fst tr)"
  show "\<not> (\<exists>r\<in>set (rootJsxNodes_of ns). \<exists>r'\<in>set (rootJsxNodes_of ns). \<exists>k. 0 < k \<and>
         anc (parentIdMap_of ns) k (node_id r) = Some (node_id r'))"
  proof
    assume "\<exists>r\<in>set (rootJsxNodes_of ns). \<exists>r'\<in>set (rootJsxNodes_of ns). \<exists>k. 0 < k \<and>
         anc (parentIdMap_of ns) k (node_id r) = Some (node_id r')"
    then obtain r r' k where r: "r \<in> set (rootJsxNodes_of ns)" "r' \<in> set (rootJsxNodes_of ns)"
      "0 < k" "anc (parentIdMap_of ns) k (node_id r) = Some (node_id r')" by blast
    have a: "(node_id r, 0) \<in> set tr" by (rule root_visited[OF assms(2) r(1)])
    have "(node_id r', 0) \<in> set tr" by (rule root_visited[OF assms(2) r(2)])
    from call_order_descendants[OF assms(2) this r(4)] have b: "(node_id r, k) \<in> set tr" by simp
    from dis have "inj_on fst (set tr)" by (simp add: distinct_map)
    from inj_onD[OF this _ a b] r(3) show False by simp
  qed
next
  assume "\<not> (\<exists>r\<in>set (rootJsxNodes_of ns). \<exists>r'\<in>set (rootJsxNodes_of ns). \<exists>k. 0 < k \<and>
         anc (parentIdMap_of ns) k (node_id r) = Some (node_id r'))"
  then have ap: "\<forall>r\<in>node_id ` set (rootJsxNodes_of ns). \<forall>r'\<in>node_id ` set (rootJsxNodes_of ns).
      \<forall>k. 0 < k \<longrightarrow> anc (parentIdMap_of ns) k r \<noteq> Some r'"
    by blast
  show "distinct (map fst tr)"
  proof (rule collect_calls_distinct_apart[OF ap _ _ _ assms(2)[unfolded call_order_def]])
    show "distinct (map node_id (rootJsxNodes_of ns))"
      using assms(1) by (simp add: rootJsxNodes_of_def distinct_map_filter)
  next
    fix c assume "c \<in> set (map node_id (rootJsxNodes_of ns))"
    then show "\<exists>r\<in>node_id ` set (rootJsxNodes_of ns). anc (parentIdMap_of ns) 0 c = Some r"
      by auto
  next
    fix c t
    assume c: "c \<in> set (map node_id (rootJsxNodes_of ns))"
      "calls fuel (map node_id ns) (parentIdMap_of ns) c 0 = Some t"
    from c(1) have "c \<in> node_id ` set (rootJsxNodes_of ns)" by simp
    from calls_distinct_apart[OF ap assms(1) this _ c(2)] show "distinct (map fst t)" by simp
  qed
qed

lemma root_under_root_empty_parent:
  assumes "r \<in> set (rootJsxNodes_of ns)" "r' \<in> set (rootJsxNodes_of ns)" "0 < k"
    "anc (parentIdMap_of ns) k (node_id r) = Some (node_id r')"
  shows "empty_parent_resolves ns"
proof (rule ccontr)
  assume "\<not> empty_parent_resolves ns"
  from root_good[OF this assms(1)]
  have g: "good_root (map node_id ns) (parentIdMap_of ns) (node_id r)" .
  from root_no_anc[OF parentIdMap_keys g assms(4) root_in_jsx[OF assms(2)]] assms(3)
  show False by simp
qed

lemma collect_mono:
  "collect cs g = Some tr \<Longrightarrow> (\<And>c t. c \<in> set cs \<Longrightarrow> g c = Some t \<Longrightarrow> g' c = Some t) \<Longrightarrow>
   collect cs g' = Some tr"
proof (induction cs arbitrary: tr)
  case Nil
  then show ?case by simp
next
  case (Cons c cs)
  from Cons.prems(1) obtain t ts where
    t: "g c = Some t" and ts: "collect cs g = Some ts" and tr: "tr = t @ ts"
    by (auto split: option.splits)
  have "g' c = Some t" using Cons.prems(2)[of c t] t by simp
  moreover have "collect cs g' = Some ts"
    by (rule Cons.IH[OF ts]) (simp add: Cons.prems(2))
  ultimately show ?case using tr by simp
qed

lemma calls_Suc: "calls fuel ids pm i d = Some tr \<Longrightarrow> calls (Suc fuel) ids pm i d = Some tr"
proof (induction fuel arbitrary: i d tr)
  case 0
  then show ?case by simp
next
  case (Suc fuel)
  let ?cs = "filter (\<lambda>c. parent_get pm c = Some i) ids"
  from Suc.prems obtain tr' where
    tr': "collect ?cs (\<lambda>c. calls fuel ids pm c (d + 1)) = Some tr'" "tr = (i, d) # tr'"
    by (auto split: option.splits)
  have "collect ?cs (\<lambda>c. calls (Suc fuel) ids pm c (d + 1)) = Some tr'"
    by (rule collect_mono[OF tr'(1)]) (rule Suc.IH)
  then show ?case using tr'(2) by (simp del: calls.simps(2) add: calls.simps(2)[of "Suc fuel"])
qed

lemma calls_le:
  "fuel \<le> fuel' \<Longrightarrow> calls fuel ids pm i d = Some tr \<Longrightarrow> calls fuel' ids pm i d = Some tr"
  by (induction fuel' rule: nat_induct_at_least) (simp_all add: calls_Suc del: calls.simps)

lemma call_order_le:
  "fuel \<le> fuel' \<Longrightarrow> call_order fuel ns = Some tr \<Longrightarrow> call_order fuel' ns = Some tr"
  unfolding call_order_def by (erule collect_mono) (rule calls_le)

lemma call_order_unique:
  assumes "call_order fuel ns = Some tr" "call_order fuel' ns = Some tr'"
  shows "tr = tr'"
proof (cases "fuel \<le> fuel'")
  case True
  from call_order_le[OF True assms(1)] assms(2) show ?thesis by simp
next
  case False
  then have "fuel' \<le> fuel" by simp
  from call_order_le[OF this assms(2)] assms(1) show ?thesis by simp
qed

lemma apply_unique:
  assumes "applyJsxTreeLayout rnd fuel layout = Some a" "applyJsxTreeLayout rnd fuel' layout = Some b"
  shows "a = b"
  using assms(1)
proof (cases rule: apply_cases)
  case passthrough
  with assms(2) show ?thesis by (simp add: apply_eq)
next
  case (laid_out tr)
  from assms(2) laid_out(1) obtain tr' where
    tr': "call_order fuel' (jsxNodes_of (nodes layout)) = Some tr'"
    "b = layout_with layout (positions_of rnd layout tr')"
    by (auto simp: apply_eq)
  from call_order_unique[OF laid_out(2) tr'(1)] laid_out(3) tr'(2) show ?thesis by simp
qed


lemma empty_id_cycle_calls:
  "calls fuel [''a'', []] [(''a'', Some []), ([], Some ''a'')] ''a'' d = None \<and>
   calls fuel [''a'', []] [(''a'', Some []), ([], Some ''a'')] [] d = None"
  by (induction fuel arbitrary: d) (simp_all add: parent_get_def map_get_def)

lemma empty_id_cycle_order: "call_order fuel (jsxNodes_of (nodes empty_id_cycle)) = None"
proof -
  have j: "jsxNodes_of (nodes empty_id_cycle) =
           [jsx_node ''a'' (Some []) 900 80, jsx_node [] (Some ''a'') 900 120]"
    by (simp add: empty_id_cycle_def jsxNodes_of_def jsx_node_def)
  have pm: "parentIdMap_of [jsx_node ''a'' (Some []) 900 80, jsx_node [] (Some ''a'') 900 120] =
            [(''a'', Some []), ([], Some ''a'')]"
    by (simp add: parentIdMap_of_def map_set_def jsx_node_def meta_jsxParentId_def)
  have roots: "map node_id (rootJsxNodes_of
                 [jsx_node ''a'' (Some []) 900 80, jsx_node [] (Some ''a'') 900 120]) = [''a'']"
    unfolding root_ids pm by (simp add: jsx_node_def parent_get_def map_get_def)
  show ?thesis
    unfolding j call_order_def roots pm using empty_id_cycle_calls[of fuel 0]
    by (simp add: jsx_node_def)
qed

lemma empty_id_cycle_never: "\<not> (\<exists>rnd fuel out. applyJsxTreeLayout rnd fuel empty_id_cycle = Some out)"
proof -
  have "jsxNodes_of (nodes empty_id_cycle) \<noteq> []"
    by (simp add: empty_id_cycle_def jsxNodes_of_def jsx_node_def)
  then show ?thesis by (simp add: apply_eq empty_id_cycle_order)
qed

lemma cyclic_run: "applyJsxTreeLayout round64 4 cyclic_layout = Some cyclic_result"
  by code_simp

lemma cyclic_calls:
  "call_order 4 (jsxNodes_of (nodes cyclic_layout)) = Some [(''app'', 0), (''div'', 1)]"
  by code_simp

lemma absent_parent_no_anc: "parent_get pm i = None \<Longrightarrow> 0 < k \<Longrightarrow> anc pm k i = None"
  by (cases k) simp_all

lemma cyclic_roots:
  assumes "r \<in> set (rootJsxNodes_of (jsxNodes_of (nodes cyclic_layout)))" "0 < k"
  shows "anc (parentIdMap_of (jsxNodes_of (nodes cyclic_layout))) k (node_id r) = None"
proof -
  have "map node_id (rootJsxNodes_of (jsxNodes_of (nodes cyclic_layout))) = [''app'']"
    by code_simp
  with assms(1) have i: "node_id r = ''app''"
    by (metis empty_iff empty_set imageI list.set_map set_ConsD)
  have "parent_get (parentIdMap_of (jsxNodes_of (nodes cyclic_layout))) ''app'' = None"
    by code_simp
  from absent_parent_no_anc[OF this assms(2)] i show ?thesis by simp
qed

text \<open>
  Claim C5, as amended. The code keeps no visited set. The transform returns exactly when
  no jsx node that passes the root filter lies on a cycle of parent ids, and then a stack
  of as many nested calls as there are jsx nodes is enough and the result does not depend
  on the stack bound. In a run that returns, only ids of jsx nodes are visited and no id
  on a cycle of parent ids is visited; when the ids of the jsx nodes are unique, no id is
  visited twice exactly when no root has a root among its proper ancestors. A root that
  has a root among its ancestors, itself included, takes a jsx node with the empty string
  as its parent id and a jsx node with the empty string as its id.
\<close>

theorem traversal_returns:
  "((\<exists>fuel out. applyJsxTreeLayout rnd fuel layout = Some out) =
    (\<not> (\<exists>r\<in>set (rootJsxNodes_of (jsxNodes_of (nodes layout))). \<exists>k. 0 < k \<and>
          anc (parentIdMap_of (jsxNodes_of (nodes layout))) k (node_id r) = Some (node_id r)))) \<and>
   ((\<forall>r\<in>set (rootJsxNodes_of (jsxNodes_of (nodes layout))). \<forall>k. 0 < k \<longrightarrow>
        anc (parentIdMap_of (jsxNodes_of (nodes layout))) k (node_id r) \<noteq> Some (node_id r)) \<longrightarrow>
    (\<forall>fuel. length (jsxNodes_of (nodes layout)) \<le> fuel \<longrightarrow>
       (\<exists>out. applyJsxTreeLayout rnd fuel layout = Some out))) \<and>
   (\<forall>fuel fuel' a b. applyJsxTreeLayout rnd fuel layout = Some a \<and>
      applyJsxTreeLayout rnd fuel' layout = Some b \<longrightarrow> a = b) \<and>
   (\<forall>fuel tr. call_order fuel (jsxNodes_of (nodes layout)) = Some tr \<longrightarrow>
      (\<forall>v\<in>set tr. \<exists>n\<in>set (nodes layout). node_kind n = Jsx \<and> node_id n = fst v) \<and>
      (\<forall>i\<in>fst ` set tr. \<forall>k. 0 < k \<longrightarrow>
         anc (parentIdMap_of (jsxNodes_of (nodes layout))) k i \<noteq> Some i) \<and>
      (distinct (map node_id (jsxNodes_of (nodes layout))) \<longrightarrow>
       distinct (map fst tr) =
       (\<not> (\<exists>r\<in>set (rootJsxNodes_of (jsxNodes_of (nodes layout))).
            \<exists>r'\<in>set (rootJsxNodes_of (jsxNodes_of (nodes layout))). \<exists>k. 0 < k \<and>
              anc (parentIdMap_of (jsxNodes_of (nodes layout))) k (node_id r) =
              Some (node_id r'))))) \<and>
   ((\<exists>r\<in>set (rootJsxNodes_of (jsxNodes_of (nodes layout))).
       \<exists>r'\<in>set (rootJsxNodes_of (jsxNodes_of (nodes layout))). \<exists>k. 0 < k \<and>
         anc (parentIdMap_of (jsxNodes_of (nodes layout))) k (node_id r) = Some (node_id r')) \<longrightarrow>
    empty_parent_resolves (jsxNodes_of (nodes layout)))"
proof (intro conjI)
  let ?jsx = "jsxNodes_of (nodes layout)"
  let ?pm = "parentIdMap_of ?jsx"
  show "(\<exists>fuel out. applyJsxTreeLayout rnd fuel layout = Some out) =
    (\<not> (\<exists>r\<in>set (rootJsxNodes_of ?jsx). \<exists>k. 0 < k \<and>
          anc ?pm k (node_id r) = Some (node_id r)))"
    by (rule apply_returns_iff)
  show "(\<forall>r\<in>set (rootJsxNodes_of ?jsx). \<forall>k. 0 < k \<longrightarrow>
        anc ?pm k (node_id r) \<noteq> Some (node_id r)) \<longrightarrow>
    (\<forall>fuel. length ?jsx \<le> fuel \<longrightarrow> (\<exists>out. applyJsxTreeLayout rnd fuel layout = Some out))"
  proof (intro impI allI)
    fix fuel
    assume a: "\<forall>r\<in>set (rootJsxNodes_of ?jsx). \<forall>k. 0 < k \<longrightarrow>
        anc ?pm k (node_id r) \<noteq> Some (node_id r)" and l: "length ?jsx \<le> fuel"
    from call_order_acyclic_roots[OF a l]
    show "\<exists>out. applyJsxTreeLayout rnd fuel layout = Some out" by (auto simp: apply_eq)
  qed
  show "\<forall>fuel fuel' a b. applyJsxTreeLayout rnd fuel layout = Some a \<and>
      applyJsxTreeLayout rnd fuel' layout = Some b \<longrightarrow> a = b"
    using apply_unique[of rnd _ layout] by blast
  show "\<forall>fuel tr. call_order fuel ?jsx = Some tr \<longrightarrow>
      (\<forall>v\<in>set tr. \<exists>n\<in>set (nodes layout). node_kind n = Jsx \<and> node_id n = fst v) \<and>
      (\<forall>i\<in>fst ` set tr. \<forall>k. 0 < k \<longrightarrow> anc ?pm k i \<noteq> Some i) \<and>
      (distinct (map node_id ?jsx) \<longrightarrow>
       distinct (map fst tr) =
       (\<not> (\<exists>r\<in>set (rootJsxNodes_of ?jsx). \<exists>r'\<in>set (rootJsxNodes_of ?jsx). \<exists>k. 0 < k \<and>
              anc ?pm k (node_id r) = Some (node_id r'))))"
  proof (intro allI impI conjI)
    fix fuel tr
    assume tr: "call_order fuel ?jsx = Some tr"
    show "\<forall>v\<in>set tr. \<exists>n\<in>set (nodes layout). node_kind n = Jsx \<and> node_id n = fst v"
      using visited_is_jsx[OF tr] by blast
    show "\<forall>i\<in>fst ` set tr. \<forall>k. 0 < k \<longrightarrow> anc ?pm k i \<noteq> Some i"
      using visited_not_on_cycle[OF tr] by blast
    assume d: "distinct (map node_id ?jsx)"
    show "distinct (map fst tr) =
       (\<not> (\<exists>r\<in>set (rootJsxNodes_of ?jsx). \<exists>r'\<in>set (rootJsxNodes_of ?jsx). \<exists>k. 0 < k \<and>
              anc ?pm k (node_id r) = Some (node_id r')))"
      by (rule call_order_distinct_iff[OF d tr])
  qed
  show "(\<exists>r\<in>set (rootJsxNodes_of ?jsx). \<exists>r'\<in>set (rootJsxNodes_of ?jsx). \<exists>k. 0 < k \<and>
         anc ?pm k (node_id r) = Some (node_id r')) \<longrightarrow> empty_parent_resolves ?jsx"
    using root_under_root_empty_parent by blast
qed

text \<open>
  Two jsx nodes \<^verbatim>\<open>a\<close> (parent id the empty string) and the one with the empty id (parent
  \<^verbatim>\<open>a\<close>): the root filter takes \<^verbatim>\<open>a\<close> for a root, the child filter takes it for a
  child of the other, and the call is nested without end, whatever the stack bound. With
  a root whose id is the empty string instead, the run returns and \<^verbatim>\<open>a\<close> is visited
  twice, as a child of that root and as a root, although the ids are unique.
\<close>

theorem traversal_returns_counterexample:
  "\<not> (\<exists>rnd fuel out. applyJsxTreeLayout rnd fuel empty_id_cycle = Some out) \<and>
   distinct (map node_id (jsxNodes_of (nodes empty_id_cycle))) \<and>
   distinct (map node_id (jsxNodes_of (nodes empty_root_layout))) \<and>
   applyJsxTreeLayout round64 2 empty_root_layout = Some empty_root_result \<and>
   call_order 2 (jsxNodes_of (nodes empty_root_layout)) =
     Some [([], 0), (''a'', 1), (''a'', 0)]"
proof (intro conjI)
  show "\<not> (\<exists>rnd fuel out. applyJsxTreeLayout rnd fuel empty_id_cycle = Some out)"
    by (rule empty_id_cycle_never)
  show "distinct (map node_id (jsxNodes_of (nodes empty_id_cycle)))" by code_simp
  show "distinct (map node_id (jsxNodes_of (nodes empty_root_layout)))" by code_simp
  show "applyJsxTreeLayout round64 2 empty_root_layout = Some empty_root_result" by code_simp
  show "call_order 2 (jsxNodes_of (nodes empty_root_layout)) =
     Some [([], 0), (''a'', 1), (''a'', 0)]" by code_simp
qed

theorem traversal_returns_witness:
  "length (jsxNodes_of (nodes cyclic_layout)) \<le> 4 \<and>
   (\<exists>out. applyJsxTreeLayout round64 4 cyclic_layout = Some out) \<and>
   call_order 4 (jsxNodes_of (nodes cyclic_layout)) = Some [(''app'', 0), (''div'', 1)] \<and>
   distinct (map node_id (jsxNodes_of (nodes cyclic_layout))) \<and>
   distinct (map fst [(''app'', 0::nat), (''div'', 1)]) \<and>
   anc (parentIdMap_of (jsxNodes_of (nodes cyclic_layout))) 2 ''x'' = Some ''x'' \<and>
   ''x'' \<notin> fst ` set [(''app'', 0::nat), (''div'', 1)]"
proof -
  let ?jsx = "jsxNodes_of (nodes cyclic_layout)"
  let ?pm = "parentIdMap_of ?jsx"
  note t = traversal_returns[of round64 cyclic_layout]
  have h: "\<forall>r\<in>set (rootJsxNodes_of ?jsx). \<forall>k. 0 < k \<longrightarrow>
        anc ?pm k (node_id r) \<noteq> Some (node_id r)"
    using cyclic_roots by (metis option.distinct(1))
  have l: "length ?jsx \<le> 4" by code_simp
  have d: "distinct (map node_id ?jsx)" by code_simp
  have x: "anc ?pm 2 ''x'' = Some ''x''" by code_simp
  have n: "\<not> (\<exists>r\<in>set (rootJsxNodes_of ?jsx). \<exists>r'\<in>set (rootJsxNodes_of ?jsx). \<exists>k. 0 < k \<and>
              anc ?pm k (node_id r) = Some (node_id r'))"
    using cyclic_roots by (metis option.distinct(1))
  note r = t[THEN conjunct2, THEN conjunct1, THEN mp, OF h, THEN spec, THEN mp, OF l]
  note c = t[THEN conjunct2, THEN conjunct2, THEN conjunct2, THEN conjunct1, THEN spec,
      THEN spec, THEN mp, OF cyclic_calls]
  from c[THEN conjunct2, THEN conjunct2, THEN mp, OF d] n
  have v: "distinct (map fst [(''app'', 0::nat), (''div'', 1)])" by simp
  have "''x'' \<notin> fst ` set [(''app'', 0::nat), (''div'', 1)]" by simp
  with l r cyclic_calls d v x show ?thesis by (intro conjI)
qed

section \<open>The row of a root\<close>











lemma cycle_anc:
  assumes "\<forall>m<length cyc. parent_get pm (cyc ! m) = Some (cyc ! (Suc m mod length cyc))"
  shows "m < length cyc \<Longrightarrow> anc pm d (cyc ! m) = Some (cyc ! ((m + d) mod length cyc))"
proof (induction d arbitrary: m)
  case 0
  then show ?case by simp
next
  case (Suc d)
  have "0 < length cyc" using Suc.prems by linarith
  then have lt: "Suc m mod length cyc < length cyc" by (rule mod_less_divisor)
  have "anc pm (Suc d) (cyc ! m) = anc pm d (cyc ! (Suc m mod length cyc))"
    using assms Suc.prems by simp
  also have "\<dots> = Some (cyc ! ((Suc m mod length cyc + d) mod length cyc))"
    by (rule Suc.IH[OF lt])
  also have "(Suc m mod length cyc + d) mod length cyc = (m + Suc d) mod length cyc"
    by (simp add: mod_add_left_eq)
  finally show ?case .
qed

lemma cycle_not_visited:
  assumes "call_order fuel ns = Some tr"
    and "\<forall>m<length cyc. parent_get (parentIdMap_of ns) (cyc ! m) = Some (cyc ! (Suc m mod length cyc))"
    and "\<forall>i\<in>set cyc. \<not> is_root (parentIdMap_of ns) (jsxNodeById_of ns) i"
    and "i \<in> set cyc"
  shows "i \<notin> fst ` set tr"
proof
  assume "i \<in> fst ` set tr"
  then obtain d where d: "(i, d) \<in> set tr" by force
  from visited_from_root[OF assms(1) d] obtain r where
    r: "r \<in> set (rootJsxNodes_of ns)" "anc (parentIdMap_of ns) d i = Some (node_id r)" by blast
  from assms(4) obtain m where m: "m < length cyc" "i = cyc ! m" by (auto simp: in_set_conv_nth)
  from cycle_anc[OF assms(2) m(1), of d] r(2) m(2)
  have "node_id r = cyc ! ((m + d) mod length cyc)" by simp
  moreover have "0 < length cyc" using m(1) by linarith
  then have "(m + d) mod length cyc < length cyc" by (rule mod_less_divisor)
  ultimately have "node_id r \<in> set cyc" by simp
  with assms(3) have "\<not> is_root (parentIdMap_of ns) (jsxNodeById_of ns) (node_id r)" by blast
  with r(1) show False by (simp add: rootJsxNodes_of_def)
qed

lemma cycle_parent_ids:
  assumes "distinct (map node_id (jsxNodes_of ns))"
    and "\<forall>m<length cs. cs ! m \<in> set ns \<and> node_kind (cs ! m) = Jsx \<and> node_id (cs ! m) \<noteq> [] \<and>
           meta_jsxParentId (cs ! m) = Some (node_id (cs ! (Suc m mod length cs)))"
  shows "\<forall>m<length (map node_id cs).
           parent_get (parentIdMap_of (jsxNodes_of ns)) (map node_id cs ! m) =
           Some (map node_id cs ! (Suc m mod length (map node_id cs)))"
proof (intro allI impI)
  fix m assume "m < length (map node_id cs)"
  then have m: "m < length cs" by simp
  then have "0 < length cs" by linarith
  then have lt: "Suc m mod length cs < length cs" by (rule mod_less_divisor)
  from assms(2) m have "cs ! m \<in> set (jsxNodes_of ns)" by (simp add: jsxNodes_of_def)
  from parentIdMap_get_distinct[OF assms(1) this] assms(2) m
  have "parent_get (parentIdMap_of (jsxNodes_of ns)) (node_id (cs ! m)) =
        Some (node_id (cs ! (Suc m mod length cs)))" by simp
  with m lt show "parent_get (parentIdMap_of (jsxNodes_of ns)) (map node_id cs ! m) =
           Some (map node_id cs ! (Suc m mod length (map node_id cs)))" by simp
qed

lemma cycle_no_root:
  assumes "distinct (map node_id (jsxNodes_of ns))"
    and "\<forall>m<length cs. cs ! m \<in> set ns \<and> node_kind (cs ! m) = Jsx \<and> node_id (cs ! m) \<noteq> [] \<and>
           meta_jsxParentId (cs ! m) = Some (node_id (cs ! (Suc m mod length cs)))"
    and "c \<in> set cs"
  shows "\<not> is_root (parentIdMap_of (jsxNodes_of ns)) (jsxNodeById_of (jsxNodes_of ns)) (node_id c)"
proof -
  from assms(3) obtain m where m: "m < length cs" "c = cs ! m" by (auto simp: in_set_conv_nth)
  then have "0 < length cs" by linarith
  then have lt: "Suc m mod length cs < length cs" by (rule mod_less_divisor)
  let ?p = "cs ! (Suc m mod length cs)"
  from assms(2) m have cj: "c \<in> set (jsxNodes_of ns)" by (simp add: jsxNodes_of_def)
  from assms(2) lt have pj: "?p \<in> set (jsxNodes_of ns)" and pe: "node_id ?p \<noteq> []"
    by (simp_all add: jsxNodes_of_def)
  from parentIdMap_get_distinct[OF assms(1) cj] assms(2) m
  have "parent_get (parentIdMap_of (jsxNodes_of ns)) (node_id c) = Some (node_id ?p)" by simp
  with pj pe show ?thesis by (simp add: is_root_iff)
qed

text \<open>
  Claim C10, as amended. Let the ids of the jsx nodes be unique, and let \<open>cs\<close> be jsx nodes
  of the layout, none with the empty string as its id, of which each has the id of the
  next one as its parent id, the last one having that of the first. Then none of them
  passes the root filter, and in a run that returns no call of either pass visits one of
  them: they have no entry in \<^verbatim>\<open>depthById\<close> and none in \<^verbatim>\<open>newNodePositions\<close>, and each is in
  the output, at its place in the node list, as it was in the input.
\<close>

theorem cycle_nodes_untouched:
  assumes "applyJsxTreeLayout rnd fuel layout = Some layout'"
    and "distinct (map node_id (jsxNodes_of (nodes layout)))"
    and "\<forall>m<length cs. cs ! m \<in> set (nodes layout) \<and> node_kind (cs ! m) = Jsx \<and>
           node_id (cs ! m) \<noteq> [] \<and>
           meta_jsxParentId (cs ! m) = Some (node_id (cs ! (Suc m mod length cs)))"
    and "k < length (nodes layout)" and "nodes layout ! k \<in> set cs"
  shows "(\<forall>c\<in>set cs. \<not> is_root (parentIdMap_of (jsxNodes_of (nodes layout)))
                         (jsxNodeById_of (jsxNodes_of (nodes layout))) (node_id c)) \<and>
    (\<forall>c\<in>set cs. c \<notin> set (rootJsxNodes_of (jsxNodes_of (nodes layout)))) \<and>
    length (nodes layout') = length (nodes layout) \<and>
    nodes layout' ! k = nodes layout ! k \<and>
    (\<forall>tr. call_order fuel (jsxNodes_of (nodes layout)) = Some tr \<longrightarrow>
       node_id (nodes layout ! k) \<notin> fst ` set tr) \<and>
    (\<forall>dst. depth_pass fuel (jsxNodes_of (nodes layout)) = Some dst \<longrightarrow>
       map_get (fst dst) (node_id (nodes layout ! k)) = None) \<and>
    (\<forall>baseX maxDepth pst.
       position_pass rnd fuel (jsxNodes_of (nodes layout)) baseX maxDepth = Some pst \<longrightarrow>
       map_get (snd pst) (node_id (nodes layout ! k)) = None)"
proof -
  let ?jsx = "jsxNodes_of (nodes layout)"
  let ?i = "node_id (nodes layout ! k)"
  let ?cyc = "map node_id cs"
  have par: "\<forall>m<length ?cyc. parent_get (parentIdMap_of ?jsx) (?cyc ! m) =
               Some (?cyc ! (Suc m mod length ?cyc))"
    by (rule cycle_parent_ids[OF assms(2,3)])
  have nr: "\<forall>c\<in>set cs. \<not> is_root (parentIdMap_of ?jsx) (jsxNodeById_of ?jsx) (node_id c)"
    using cycle_no_root[OF assms(2,3)] by blast
  then have nr': "\<forall>c\<in>set cs. c \<notin> set (rootJsxNodes_of ?jsx)"
    by (auto simp: rootJsxNodes_of_def)
  from nr have nri: "\<forall>i\<in>set ?cyc. \<not> is_root (parentIdMap_of ?jsx) (jsxNodeById_of ?jsx) i"
    by auto
  have ic: "?i \<in> set ?cyc" using assms(5) by simp
  have nv: "?i \<notin> fst ` set tr" if "call_order fuel ?jsx = Some tr" for tr
    by (rule cycle_not_visited[OF that par nri ic])
  have dep: "map_get (fst dst) ?i = None" if "depth_pass fuel ?jsx = Some dst" for dst
  proof -
    from that obtain tr where tr: "call_order fuel ?jsx = Some tr" "dst = fold dfs_step tr ([], [])"
      by (auto simp: depth_pass_calls)
    have "dom (map_of (fst dst)) = fst ` set tr" unfolding tr(2) by (rule depths_dom)
    with nv[OF tr(1)] show ?thesis by (auto simp: map_get_def)
  qed
  have pos: "map_get (snd pst) ?i = None"
    if "position_pass rnd fuel ?jsx baseX maxDepth = Some pst" for baseX maxDepth pst
  proof -
    from that obtain tr where tr: "call_order fuel ?jsx = Some tr"
      "pst = fold (pos_step rnd baseX maxDepth) tr ([], [])"
      by (auto simp: position_pass_calls)
    have "dom (map_of (snd pst)) = fst ` set tr" unfolding tr(2) by (rule positions_dom)
    with nv[OF tr(1)] show ?thesis by (auto simp: map_get_def)
  qed
  have same: "length (nodes layout') = length (nodes layout) \<and>
              nodes layout' ! k = nodes layout ! k"
    using assms(1)
  proof (cases rule: apply_cases)
    case passthrough
    then show ?thesis by simp
  next
    case (laid_out tr)
    have "dom (map_of (positions_of rnd layout tr)) = fst ` set tr"
      unfolding positions_of_def by (rule positions_dom)
    with nv[OF laid_out(2)] have "map_of (positions_of rnd layout tr) ?i = None" by auto
    from newNodes_nth_None[OF assms(4) this] show ?thesis
      by (simp add: laid_out(3) layout_with_def newNodes_length)
  qed
  show ?thesis using nr nr' same nv dep pos by blast
qed

theorem cycle_nodes_untouched_witness:
  "applyJsxTreeLayout round64 4 cyclic_layout = Some cyclic_result \<and>
   distinct (map node_id (jsxNodes_of (nodes cyclic_layout))) \<and>
   nodes cyclic_layout ! 1 = jsx_node ''x'' (Some ''y'') 640 200 \<and>
   \<not> is_root (parentIdMap_of (jsxNodes_of (nodes cyclic_layout)))
       (jsxNodeById_of (jsxNodes_of (nodes cyclic_layout))) ''x'' \<and>
   nodes cyclic_result ! 1 = nodes cyclic_layout ! 1 \<and>
   call_order 4 (jsxNodes_of (nodes cyclic_layout)) = Some [(''app'', 0), (''div'', 1)] \<and>
   node_id (nodes cyclic_layout ! 1) \<notin> fst ` set [(''app'', 0::nat), (''div'', 1)]"
proof -
  let ?x = "jsx_node ''x'' (Some ''y'') 640 200"
  let ?y = "jsx_node ''y'' (Some ''x'') 660 240"
  have d: "distinct (map node_id (jsxNodes_of (nodes cyclic_layout)))" by code_simp
  have c: "\<forall>m<length [?x, ?y]. [?x, ?y] ! m \<in> set (nodes cyclic_layout) \<and>
      node_kind ([?x, ?y] ! m) = Jsx \<and> node_id ([?x, ?y] ! m) \<noteq> [] \<and>
      meta_jsxParentId ([?x, ?y] ! m) = Some (node_id ([?x, ?y] ! (Suc m mod length [?x, ?y])))"
  proof (intro allI impI)
    fix m :: nat assume "m < length [?x, ?y]"
    then have "m = 0 \<or> m = 1" by auto
    then show "[?x, ?y] ! m \<in> set (nodes cyclic_layout) \<and>
      node_kind ([?x, ?y] ! m) = Jsx \<and> node_id ([?x, ?y] ! m) \<noteq> [] \<and>
      meta_jsxParentId ([?x, ?y] ! m) = Some (node_id ([?x, ?y] ! (Suc m mod length [?x, ?y])))"
      by (auto simp: cyclic_layout_def jsx_node_def meta_jsxParentId_def)
  qed
  have k: "1 < length (nodes cyclic_layout)" by (simp add: cyclic_layout_def)
  have n: "nodes cyclic_layout ! 1 = ?x" by (simp add: cyclic_layout_def)
  then have i: "nodes cyclic_layout ! 1 \<in> set [?x, ?y]" by simp
  have xi: "node_id ?x = ''x''" by (simp add: jsx_node_def)
  note t = cycle_nodes_untouched[OF cyclic_run d c k i]
  from t[THEN conjunct1] xi
  have r: "\<not> is_root (parentIdMap_of (jsxNodes_of (nodes cyclic_layout)))
       (jsxNodeById_of (jsxNodes_of (nodes cyclic_layout))) ''x''"
    by (metis list.set_intros(1))
  note s = t[THEN conjunct2, THEN conjunct2, THEN conjunct2, THEN conjunct1]
  note v = t[THEN conjunct2, THEN conjunct2, THEN conjunct2, THEN conjunct2, THEN conjunct1,
      THEN spec, THEN mp, OF cyclic_calls]
  show ?thesis using cyclic_run d n r s cyclic_calls v by (intro conjI)
qed

text \<open>
  That each parent id resolves to another jsx node does not keep the nodes of a cycle from
  the root filter: of the jsx nodes \<^verbatim>\<open>a\<close> (parent id the empty string) and the one with the
  empty id (parent \<^verbatim>\<open>a\<close>), the first passes it, because its parent id is the empty string; the
  traversal enters the cycle and returns for no stack bound, so there is no output.
\<close>

theorem cycle_nodes_untouched_counterexample:
  "nodes empty_id_cycle = [jsx_node ''a'' (Some []) 900 80, jsx_node [] (Some ''a'') 900 120] \<and>
   distinct (map node_id (jsxNodes_of (nodes empty_id_cycle))) \<and>
   node_kind (jsx_node ''a'' (Some []) 900 80) = Jsx \<and>
   node_kind (jsx_node [] (Some ''a'') 900 120) = Jsx \<and>
   meta_jsxParentId (jsx_node ''a'' (Some []) 900 80) =
     Some (node_id (jsx_node [] (Some ''a'') 900 120)) \<and>
   meta_jsxParentId (jsx_node [] (Some ''a'') 900 120) =
     Some (node_id (jsx_node ''a'' (Some []) 900 80)) \<and>
   map_has (jsxNodeById_of (jsxNodes_of (nodes empty_id_cycle))) [] \<and>
   map_has (jsxNodeById_of (jsxNodes_of (nodes empty_id_cycle))) ''a'' \<and>
   is_root (parentIdMap_of (jsxNodes_of (nodes empty_id_cycle)))
     (jsxNodeById_of (jsxNodes_of (nodes empty_id_cycle)))
     (node_id (jsx_node ''a'' (Some []) 900 80)) \<and>
   rootJsxNodes_of (jsxNodes_of (nodes empty_id_cycle)) = [jsx_node ''a'' (Some []) 900 80] \<and>
   \<not> (\<exists>rnd fuel out. applyJsxTreeLayout rnd fuel empty_id_cycle = Some out)"
proof (intro conjI)
  show "\<not> (\<exists>rnd fuel out. applyJsxTreeLayout rnd fuel empty_id_cycle = Some out)"
    by (rule empty_id_cycle_never)
qed code_simp+

end
